theory Spec2Isabelle
  imports Main "HOL-Library.Word"
begin

section \<open>Go values used by the S3SplitFileInput plugin\<close>

text \<open>
  An \<open>error\<close> value of Go is either the sentinel \<open>io.EOF\<close> or any other error, kept with
  its message; \<open>nil\<close> is \<open>None\<close> of \<open>go_error option\<close>. A \<open>[]byte\<close> is a list of bytes.
\<close>

datatype go_error = EOF | GoError string

fun Error :: "go_error \<Rightarrow> string" where
  "Error EOF = ''EOF''"
| "Error (GoError m) = m"

type_synonym bytes = "8 word list"

text \<open>The verb \<open>%d\<close> of \<open>fmt\<close> on a non-negative integer: its decimal digits.\<close>

fun show_nat :: "nat \<Rightarrow> string" where
  "show_nat n =
     (if n < 10 then [''0123456789'' ! n]
      else show_nat (n div 10) @ [''0123456789'' ! (n mod 10)])"

declare show_nat.simps [simp del]

subsection \<open>Channels\<close>

text \<open>
  A channel value is \<open>nil\<close> (\<open>None\<close>) or a channel with its buffer, its capacity and its
  closed flag. The operations follow the language: closing a nil or a closed channel
  panics; a receive takes the oldest buffered value, reports a closed and empty channel
  at once, and blocks otherwise (for ever on a nil channel); a send appends to the
  buffer while there is room, blocks when the buffer is full (and on a nil channel), and
  panics on a closed channel. The only channel this plugin ever sends on is the buffered
  \<open>listChan\<close>; nothing is ever sent on \<open>stop\<close>, which is only closed.
\<close>

record 'a chan =
  ch_closed :: bool
  ch_buf :: "'a list"
  ch_cap :: nat

datatype panic = CloseOfNilChannel | CloseOfClosedChannel | SendOnClosedChannel

datatype 'a recv_result = RecvVal 'a "'a chan option" | RecvClosed | RecvBlocks

datatype 'a send_result = Sent "'a chan option" | SendBlocks | SendPanics

definition make_chan :: "nat \<Rightarrow> 'a chan option" where
  "make_chan n = Some \<lparr>ch_closed = False, ch_buf = [], ch_cap = n\<rparr>"

definition close_chan :: "'a chan option \<Rightarrow> panic + 'a chan option" where
  "close_chan c =
     (case c of
        None \<Rightarrow> Inl CloseOfNilChannel
      | Some ch \<Rightarrow>
          if ch_closed ch then Inl CloseOfClosedChannel
          else Inr (Some (ch\<lparr>ch_closed := True\<rparr>)))"

definition chan_recv :: "'a chan option \<Rightarrow> 'a recv_result" where
  "chan_recv c =
     (case c of
        None \<Rightarrow> RecvBlocks
      | Some ch \<Rightarrow>
          (case ch_buf ch of
             x # xs \<Rightarrow> RecvVal x (Some (ch\<lparr>ch_buf := xs\<rparr>))
           | [] \<Rightarrow> if ch_closed ch then RecvClosed else RecvBlocks))"

definition chan_send :: "'a \<Rightarrow> 'a chan option \<Rightarrow> 'a send_result" where
  "chan_send x c =
     (case c of
        None \<Rightarrow> SendBlocks
      | Some ch \<Rightarrow>
          if ch_closed ch then SendPanics
          else if length (ch_buf ch) < ch_cap ch
            then Sent (Some (ch\<lparr>ch_buf := ch_buf ch @ [x]\<rparr>))
            else SendBlocks)"

text \<open>
  \<open>case <-c:\<close> of a \<open>select\<close> on a channel nobody sends on is ready exactly when the
  channel is closed.
\<close>

definition chan_is_closed :: "'a chan option \<Rightarrow> bool" where
  "chan_is_closed c = (case c of None \<Rightarrow> False | Some ch \<Rightarrow> ch_closed ch)"

section \<open>The plugin's data\<close>

record S3SplitFileInputConfig =
  Decoder :: string
  Splitter :: string
  SchemaFile :: string
  AWSKey :: string
  AWSSecretKey :: string
  AWSRegion :: string
  S3Bucket :: string
  S3BucketPrefix :: string
  S3ObjectMatchRegex :: string
  S3Retries :: "32 word"
  S3ConnectTimeout :: "32 word"
  S3ReadTimeout :: "32 word"
  S3WorkerCount :: "32 word"

definition ConfigStruct :: S3SplitFileInputConfig where
  "ConfigStruct =
     \<lparr>Decoder = ''ProtobufDecoder'', Splitter = ''HekaFramingSplitter'',
      SchemaFile = '''', AWSKey = '''', AWSSecretKey = '''', AWSRegion = ''us-west-2'',
      S3Bucket = '''', S3BucketPrefix = '''', S3ObjectMatchRegex = '''',
      S3Retries = 5, S3ConnectTimeout = 60, S3ReadTimeout = 60, S3WorkerCount = 10\<rparr>"

text \<open>
  The client of the object store, as \<open>Init\<close> builds it: \<open>s3.New(auth, region)\<close> with the two
  timeouts set, and the bucket of a name. The types of the credentials, of a region and
  of a schema belong to other packages and stay type parameters. A compiled regular
  expression is the predicate its \<open>MatchString\<close> decides.
\<close>

record ('auth, 'region) S3 =
  S3Auth :: 'auth
  S3Region :: 'region
  ConnectTimeout :: "64 word"
  ReadTimeout :: "64 word"

record ('auth, 'region) Bucket =
  BucketS3 :: "('auth, 'region) S3"
  BucketName :: string

type_synonym Regexp = "string \<Rightarrow> bool"

record ('schema, 'auth, 'region) S3SplitFileInput =
  processFileCount :: "64 word"
  processFileFailures :: "64 word"
  processFileDiscardedBytes :: "64 word"
  processMessageCount :: "64 word"
  processMessageFailures :: "64 word"
  processMessageBytes :: "64 word"
  config :: "S3SplitFileInputConfig option"
  objectMatch :: "Regexp option"
  bucket :: "('auth, 'region) Bucket option"
  schema :: 'schema
  stop :: "bool chan option"
  listChan :: "string chan option"

text \<open>
  What \<open>Init\<close> calls outside this file: \<open>LoadSchema\<close> and \<open>CleanBucketPrefix\<close> of this
  package, \<open>aws.GetAuth\<close> (called with the two keys; the empty token and the clock are
  fixed by the call), the table \<open>aws.Regions\<close> and \<open>regexp.Compile\<close>. They are parameters
  of the model.
\<close>

record ('schema, 'auth, 'region) collaborators =
  LoadSchema :: "string \<Rightarrow> 'schema \<times> go_error option"
  GetAuth :: "string \<Rightarrow> string \<Rightarrow> 'auth \<times> go_error option"
  Regions :: "string \<Rightarrow> 'region option"
  Compile :: "string \<Rightarrow> go_error + Regexp"
  CleanBucketPrefix :: "string \<Rightarrow> string"

text \<open>\<open>time.Duration(n) * time.Second\<close> for a \<open>uint32\<close>: nanoseconds in an \<open>int64\<close>.\<close>

definition seconds :: "32 word \<Rightarrow> 64 word" where
  "seconds n = ucast n * 1000000000"

section \<open>Init and Stop\<close>

text \<open>
  \<open>Init\<close> mutates its receiver as it goes and returns an error or \<open>nil\<close>: the model returns
  the receiver as the call leaves it, with the error. The bucket is built (and the
  credentials and the region are looked at) only when \<open>S3Bucket\<close> is not empty; the
  expression is compiled only when \<open>S3ObjectMatchRegex\<close> is not empty; the two channels
  are made last.
\<close>

definition initBucket ::
  "('schema, 'auth, 'region) collaborators \<Rightarrow> S3SplitFileInputConfig
     \<Rightarrow> go_error + ('auth, 'region) Bucket option" where
  "initBucket env conf =
     (if S3Bucket conf \<noteq> '''' then
        (case GetAuth env (AWSKey conf) (AWSSecretKey conf) of
           (auth, Some e) \<Rightarrow>
             Inl (GoError (''Authentication error: '' @ Error e @ [CHR 0x0A]))
         | (auth, None) \<Rightarrow>
             (case Regions env (AWSRegion conf) of
                None \<Rightarrow> Inl (GoError ''Parameter 'aws_region' must be a valid AWS Region'')
              | Some region \<Rightarrow>
                  Inr (Some \<lparr>BucketS3 =
                         \<lparr>S3Auth = auth, S3Region = region,
                          ConnectTimeout = seconds (S3ConnectTimeout conf),
                          ReadTimeout = seconds (S3ReadTimeout conf)\<rparr>,
                        BucketName = S3Bucket conf\<rparr>)))
      else Inr None)"

definition initObjectMatch ::
  "('schema, 'auth, 'region) collaborators \<Rightarrow> S3SplitFileInputConfig
     \<Rightarrow> Regexp option \<times> go_error option" where
  "initObjectMatch env conf =
     (if S3ObjectMatchRegex conf \<noteq> '''' then
        (case Compile env (S3ObjectMatchRegex conf) of
           Inl e \<Rightarrow> (None, Some (GoError (''S3SplitFileInput: '' @ Error e)))
         | Inr re \<Rightarrow> (Some re, None))
      else (None, None))"

definition Init ::
  "('schema, 'auth, 'region) collaborators \<Rightarrow> S3SplitFileInputConfig
     \<Rightarrow> ('schema, 'auth, 'region) S3SplitFileInput
     \<Rightarrow> ('schema, 'auth, 'region) S3SplitFileInput \<times> go_error option" where
  "Init env conf input0 =
     (let input1 = input0\<lparr>config := Some conf\<rparr>;
          (sch, err) = LoadSchema env (SchemaFile conf);
          input2 = input1\<lparr>schema := sch\<rparr>
      in case err of
           Some e \<Rightarrow>
             (input2,
              Some (GoError (''Parameter 'schema_file' must be a valid JSON file: '' @ Error e)))
         | None \<Rightarrow>
             (case initBucket env conf of
                Inl e \<Rightarrow> (input2, Some e)
              | Inr b \<Rightarrow>
                  (let input3 = input2\<lparr>bucket := b\<rparr>;
                       (re, err) = initObjectMatch env conf;
                       input4 = input3\<lparr>objectMatch := re\<rparr>
                   in case err of
                        Some e \<Rightarrow> (input4, Some e)
                      | None \<Rightarrow>
                          (input4
                             \<lparr>config :=
                                Some (conf\<lparr>S3BucketPrefix :=
                                              CleanBucketPrefix env (S3BucketPrefix conf)\<rparr>),
                              stop := make_chan 0,
                              listChan := make_chan 1000\<rparr>,
                           None))))"

text \<open>
  \<open>Stop\<close> is \<open>close(input.stop)\<close> and nothing else: it never blocks, and it panics
  when the channel is nil or already closed.
\<close>

definition Stop ::
  "('schema, 'auth, 'region) S3SplitFileInput
     \<Rightarrow> panic + ('schema, 'auth, 'region) S3SplitFileInput" where
  "Stop input =
     (case close_chan (stop input) of
        Inl p \<Rightarrow> Inl p
      | Inr c \<Rightarrow> Inr (input\<lparr>stop := c\<rparr>))"

text \<open>The receiver \<open>new(S3SplitFileInput)\<close> of the plugin registry: every field zero.\<close>

definition newInput :: "'schema \<Rightarrow> ('schema, 'auth, 'region) S3SplitFileInput" where
  "newInput sch =
     \<lparr>processFileCount = 0, processFileFailures = 0, processFileDiscardedBytes = 0,
      processMessageCount = 0, processMessageFailures = 0, processMessageBytes = 0,
      config = None, objectMatch = None, bucket = None, schema = sch,
      stop = None, listChan = None\<rparr>"

section \<open>Reading one object\<close>

text \<open>
  The six counters are only ever changed by \<open>atomic.AddInt64\<close>, records only leave through
  \<open>DeliverRecord\<close>, and messages through \<open>LogMessage\<close> and \<open>LogError\<close> of the runner. A
  function of the plugin is modelled by the list of these actions it performs, in
  program order, with what it returns; \<open>perform\<close> below carries an action out on the
  state. \<open>AddInt64\<close> adds in \<open>int64\<close>, so it wraps.
\<close>

datatype counter =
  ProcessFileCount | ProcessFileFailures | ProcessFileDiscardedBytes
| ProcessMessageCount | ProcessMessageFailures | ProcessMessageBytes

datatype action =
  LogMessage string
| LogError string
| AddInt64 counter "64 word"
| DeliverRecord bytes

fun load_counter ::
  "counter \<Rightarrow> ('schema, 'auth, 'region) S3SplitFileInput \<Rightarrow> 64 word" where
  "load_counter ProcessFileCount i = processFileCount i"
| "load_counter ProcessFileFailures i = processFileFailures i"
| "load_counter ProcessFileDiscardedBytes i = processFileDiscardedBytes i"
| "load_counter ProcessMessageCount i = processMessageCount i"
| "load_counter ProcessMessageFailures i = processMessageFailures i"
| "load_counter ProcessMessageBytes i = processMessageBytes i"

fun add_counter ::
  "counter \<Rightarrow> 64 word \<Rightarrow> ('schema, 'auth, 'region) S3SplitFileInput
     \<Rightarrow> ('schema, 'auth, 'region) S3SplitFileInput" where
  "add_counter ProcessFileCount d i = i\<lparr>processFileCount := processFileCount i + d\<rparr>"
| "add_counter ProcessFileFailures d i = i\<lparr>processFileFailures := processFileFailures i + d\<rparr>"
| "add_counter ProcessFileDiscardedBytes d i =
     i\<lparr>processFileDiscardedBytes := processFileDiscardedBytes i + d\<rparr>"
| "add_counter ProcessMessageCount d i = i\<lparr>processMessageCount := processMessageCount i + d\<rparr>"
| "add_counter ProcessMessageFailures d i =
     i\<lparr>processMessageFailures := processMessageFailures i + d\<rparr>"
| "add_counter ProcessMessageBytes d i = i\<lparr>processMessageBytes := processMessageBytes i + d\<rparr>"

text \<open>
  What \<open>S3FileIterator(bucket, s3Key)\<close> (of this package, in another file) sends before it
  closes its channel: results with a record and an error. The sequence is a parameter,
  and finite: the iterator is taken to close its channel.
\<close>

record S3FileResult =
  Record :: bytes
  RecErr :: "go_error option"

fun readLoop :: "string \<Rightarrow> S3FileResult list \<Rightarrow> action list \<times> go_error option" where
  "readLoop s3Key [] = ([], None)"
| "readLoop s3Key (r # rs) =
     (let record = Record r;
          more = (let (acts, e) = readLoop s3Key rs
                  in ((if length record > 0
                       then [AddInt64 ProcessMessageCount 1,
                             AddInt64 ProcessMessageBytes (of_nat (length record)),
                             DeliverRecord record]
                       else []) @ acts, e))
      in case RecErr r of
           None \<Rightarrow> more
         | Some err \<Rightarrow>
             if err \<noteq> EOF then
               ([LogError (''Error reading '' @ s3Key @ '': '' @ Error err),
                 AddInt64 ProcessMessageFailures 1], Some err)
             else more)"

definition readS3File ::
  "('schema, 'auth, 'region) S3SplitFileInput \<Rightarrow> S3FileResult list \<Rightarrow> string
     \<Rightarrow> action list \<times> go_error option" where
  "readS3File input rs s3Key =
     (if bucket input = None then
        ([LogMessage (''Preparing to read: '' @ s3Key),
          LogMessage (''Dude, where's my bucket: '' @ s3Key)], None)
      else (let (acts, err) = readLoop s3Key rs
            in (LogMessage (''Preparing to read: '' @ s3Key) # acts, err)))"

section \<open>A worker's turn on one key\<close>

text \<open>
  The first case of the \<open>select\<close> in \<open>fetcher\<close>, once a key has been received: read the
  object, count the file, account for what \<open>GetRemainingData\<close> of the splitter runner
  returns (\<open>leftovers\<close>, a parameter), then either count the failure and \<open>continue\<close> or log
  the success with the elapsed time (\<open>duration\<close>, as \<open>%.2f\<close> prints it: a parameter). Both
  ways the loop goes round again.
\<close>

definition fetchKey ::
  "('schema, 'auth, 'region) S3SplitFileInput \<Rightarrow> S3FileResult list \<Rightarrow> bytes \<Rightarrow> string
     \<Rightarrow> string \<Rightarrow> action list" where
  "fetchKey input rs leftovers duration s3Key =
     (let (acts, err) = readS3File input rs s3Key;
          lenLeftovers = length leftovers;
          success = [LogMessage (''Successfully fetched '' @ s3Key @ '' in '' @ duration @ ''s '')]
      in acts @ [AddInt64 ProcessFileCount 1] @
         (if lenLeftovers > 0 then
            [AddInt64 ProcessFileDiscardedBytes (of_nat lenLeftovers),
             LogError (''Trailing data, possible corruption: '' @ show_nat lenLeftovers @
                       '' bytes left in stream at EOF: '' @ s3Key)]
          else []) @
         (case err of
            None \<Rightarrow> success
          | Some e \<Rightarrow>
              if e \<noteq> EOF then
                [LogError (''Error reading '' @ s3Key @ '': '' @ Error e),
                 AddInt64 ProcessFileFailures 1]
              else success))"

section \<open>The lister's turn on one entry\<close>

text \<open>
  \<open>strings.LastIndex\<close>: the index of the last instance of \<open>substr\<close> in \<open>s\<close>, or \<open>-1\<close>.
\<close>

definition LastIndex :: "string \<Rightarrow> string \<Rightarrow> int" where
  "LastIndex s substr =
     (case find (\<lambda>i. take (length substr) (drop i s) = substr) (rev [0..<Suc (length s)]) of
        None \<Rightarrow> - 1
      | Some i \<Rightarrow> int i)"

definition basename :: "string \<Rightarrow> string" where
  "basename k = drop (nat (LastIndex k ''/'' + 1)) k"

text \<open>
  What \<open>S3Iterator\<close> (of this package, in another file) sends: a key or an error. The body
  of the listing loop after its look at \<open>stop\<close>: the messages it logs and the key it then
  sends on \<open>listChan\<close>, if any.
\<close>

record S3ListResult =
  Key :: string
  ListErr :: "go_error option"

definition listEntry ::
  "('schema, 'auth, 'region) S3SplitFileInput \<Rightarrow> S3ListResult
     \<Rightarrow> action list \<times> string option" where
  "listEntry input r =
     (case ListErr r of
        Some e \<Rightarrow> ([LogError (''Error getting S3 list: '' @ Error e)], None)
      | None \<Rightarrow>
          if (case objectMatch input of None \<Rightarrow> True | Some re \<Rightarrow> re (basename (Key r)))
          then ([LogMessage (''Found: '' @ Key r)], Some (Key r))
          else ([LogMessage (''Skipping: '' @ Key r)], None))"

section \<open>Run: the lister, the workers and their interleaving\<close>

text \<open>
  \<open>Run\<close> starts one goroutine that lists and \<open>S3WorkerCount\<close> goroutines that run
  \<open>fetcher\<close>, and waits for all of them. A state of the run holds the plugin (its counters
  and its two channels), where each goroutine stands, and what has been logged and
  delivered so far (a record with the number of the worker whose deliverer took it).

  The lister stands before its first message (\<open>LStart\<close>), at the head of the \<open>range\<close> loop
  with the entries \<open>S3Iterator\<close> has still to send (\<open>LRange\<close>; the sequence is a parameter,
  and finite), at the \<open>select\<close> on \<open>stop\<close> with the entry in hand (\<open>LSelect\<close>), at the send on
  \<open>listChan\<close> (\<open>LSend\<close>), before closing \<open>listChan\<close> (\<open>LClose\<close>), or it is done (\<open>LDone\<close>, after
  \<open>wg.Done\<close>). A worker stands at its \<open>select\<close> (\<open>WSelect\<close>), inside its turn on a key with the
  actions it has still to perform (\<open>WBusy\<close>), in the draining loop after it has seen \<open>stop\<close>
  (\<open>WDrain\<close>), or it is done (\<open>WDone\<close>). The deliverer and the splitter runner a worker asks
  the runner for before its loop belong to the host and appear only through
  \<open>DeliverRecord\<close> and the leftovers. A step of the model is one interaction of a
  goroutine with what the others can see (a channel, a counter, the log, a delivery);
  what a goroutine computes on its own in between belongs to the step.
\<close>

datatype lister_pc =
  LStart "S3ListResult list"
| LRange "S3ListResult list"
| LSelect S3ListResult "S3ListResult list"
| LSend string "S3ListResult list"
| LClose
| LDone

datatype worker_pc = WSelect | WBusy "action list" | WDrain | WDone

record ('schema, 'auth, 'region) run_state =
  input :: "('schema, 'auth, 'region) S3SplitFileInput"
  lister :: lister_pc
  workers :: "worker_pc list"
  logged :: "action list"
  delivered :: "(nat \<times> bytes) list"

fun perform ::
  "nat \<Rightarrow> action \<Rightarrow> ('schema, 'auth, 'region) run_state
     \<Rightarrow> ('schema, 'auth, 'region) run_state" where
  "perform w (LogMessage m) s = s\<lparr>logged := logged s @ [LogMessage m]\<rparr>"
| "perform w (LogError m) s = s\<lparr>logged := logged s @ [LogError m]\<rparr>"
| "perform w (AddInt64 c d) s = s\<lparr>input := add_counter c d (input s)\<rparr>"
| "perform w (DeliverRecord r) s = s\<lparr>delivered := delivered s @ [(w, r)]\<rparr>"

text \<open>A whole turn with nothing else running in between.\<close>

definition perform_all ::
  "nat \<Rightarrow> action list \<Rightarrow> ('schema, 'auth, 'region) run_state
     \<Rightarrow> ('schema, 'auth, 'region) run_state" where
  "perform_all w acts s = foldl (\<lambda>s a. perform w a s) s acts"

text \<open>
  One step of the run is one step of one goroutine, or the host calling \<open>Stop\<close>. The label
  names who moves and carries what the outside world answers: for a worker that receives
  a key, the results \<open>S3FileIterator\<close> will send for it, what \<open>GetRemainingData\<close> will
  return, and the elapsed time as printed. A \<open>select\<close> with both cases ready may take
  either: \<open>WorkerRecv\<close> and \<open>WorkerStop\<close> are then both steps. A step is \<open>None\<close> when the
  goroutine cannot move: it is blocked, it is done, or the call panics.
\<close>

datatype label =
  CallStop
| ListerStep
| WorkerRecv nat "S3FileResult list" bytes string
| WorkerStop nat
| WorkerAct nat
| WorkerDrain nat

definition lister_step ::
  "('schema, 'auth, 'region) run_state \<Rightarrow> ('schema, 'auth, 'region) run_state option" where
  "lister_step s =
     (case lister s of
        LStart es \<Rightarrow>
          Some (s\<lparr>lister := LRange es, logged := logged s @ [LogMessage ''Starting S3 list'']\<rparr>)
      | LRange es \<Rightarrow>
          (case es of
             [] \<Rightarrow> Some (s\<lparr>lister := LClose\<rparr>)
           | r # es' \<Rightarrow> Some (s\<lparr>lister := LSelect r es'\<rparr>))
      | LSelect r es \<Rightarrow>
          if chan_is_closed (stop (input s)) then
            Some (s\<lparr>lister := LClose, logged := logged s @ [LogMessage ''Stopping S3 list'']\<rparr>)
          else
            (case listEntry (input s) r of
               (acts, k) \<Rightarrow>
                 Some (s\<lparr>lister := (case k of None \<Rightarrow> LRange es | Some s3Key \<Rightarrow> LSend s3Key es),
                         logged := logged s @ acts\<rparr>))
      | LSend s3Key es \<Rightarrow>
          (case chan_send s3Key (listChan (input s)) of
             Sent c \<Rightarrow> Some (s\<lparr>input := (input s)\<lparr>listChan := c\<rparr>, lister := LRange es\<rparr>)
           | SendBlocks \<Rightarrow> None
           | SendPanics \<Rightarrow> None)
      | LClose \<Rightarrow>
          (case close_chan (listChan (input s)) of
             Inr c \<Rightarrow>
               Some (s\<lparr>input := (input s)\<lparr>listChan := c\<rparr>, lister := LDone,
                       logged := logged s @ [LogMessage ''All done listing. Closing channel'']\<rparr>)
           | Inl p \<Rightarrow> None)
      | LDone \<Rightarrow> None)"

fun step ::
  "label \<Rightarrow> ('schema, 'auth, 'region) run_state
     \<Rightarrow> ('schema, 'auth, 'region) run_state option" where
  "step CallStop s =
     (case Stop (input s) of
        Inr i \<Rightarrow> Some (s\<lparr>input := i\<rparr>)
      | Inl p \<Rightarrow> None)"
| "step ListerStep s = lister_step s"
| "step (WorkerRecv w rs leftovers duration) s =
     (if w < length (workers s) \<and> workers s ! w = WSelect then
        (case chan_recv (listChan (input s)) of
           RecvVal s3Key c \<Rightarrow>
             Some (s\<lparr>input := (input s)\<lparr>listChan := c\<rparr>,
                     workers := (workers s)
                       [w := WBusy (fetchKey (input s) rs leftovers duration s3Key)]\<rparr>)
         | RecvClosed \<Rightarrow> Some (s\<lparr>workers := (workers s)[w := WDone]\<rparr>)
         | RecvBlocks \<Rightarrow> None)
      else None)"
| "step (WorkerStop w) s =
     (if w < length (workers s) \<and> workers s ! w = WSelect \<and> chan_is_closed (stop (input s))
      then Some (s\<lparr>workers := (workers s)[w := WDrain]\<rparr>)
      else None)"
| "step (WorkerAct w) s =
     (if w < length (workers s) then
        (case workers s ! w of
           WBusy acts \<Rightarrow>
             (case acts of
                [] \<Rightarrow> Some (s\<lparr>workers := (workers s)[w := WSelect]\<rparr>)
              | a # acts' \<Rightarrow> Some ((perform w a s)\<lparr>workers := (workers s)[w := WBusy acts']\<rparr>))
         | WSelect \<Rightarrow> None
         | WDrain \<Rightarrow> None
         | WDone \<Rightarrow> None)
      else None)"
| "step (WorkerDrain w) s =
     (if w < length (workers s) \<and> workers s ! w = WDrain then
        (case chan_recv (listChan (input s)) of
           RecvVal s3Key c \<Rightarrow> Some (s\<lparr>input := (input s)\<lparr>listChan := c\<rparr>\<rparr>)
         | RecvClosed \<Rightarrow> Some (s\<lparr>workers := (workers s)[w := WDone]\<rparr>)
         | RecvBlocks \<Rightarrow> None)
      else None)"

fun exec ::
  "label list \<Rightarrow> ('schema, 'auth, 'region) run_state
     \<Rightarrow> ('schema, 'auth, 'region) run_state option" where
  "exec [] s = Some s"
| "exec (l # ls) s = (case step l s of None \<Rightarrow> None | Some s' \<Rightarrow> exec ls s')"

text \<open>
  The state in which \<open>Run\<close> starts its goroutines (a plugin without its configuration
  has none: \<open>Run\<close> dereferences the nil pointer), and the states in which \<open>wg.Wait\<close>
  returns: the lister and every worker have called \<open>wg.Done\<close>.
\<close>

definition Run ::
  "('schema, 'auth, 'region) S3SplitFileInput \<Rightarrow> S3ListResult list
     \<Rightarrow> ('schema, 'auth, 'region) run_state option" where
  "Run i listing =
     (case config i of
        None \<Rightarrow> None
      | Some conf \<Rightarrow>
          Some \<lparr>input = i, lister = LStart listing,
                workers = replicate (unat (S3WorkerCount conf)) WSelect,
                logged = [], delivered = []\<rparr>)"

definition Run_returns :: "('schema, 'auth, 'region) run_state \<Rightarrow> bool" where
  "Run_returns s = (lister s = LDone \<and> list_all (\<lambda>w. w = WDone) (workers s))"

section \<open>ReportMsg\<close>

text \<open>
  \<open>ReportMsg\<close> reads the six counters with \<open>atomic.LoadInt64\<close>, as signed integers, into
  fields of the message with a name and a unit.
\<close>

definition LoadInt64 :: "64 word \<Rightarrow> int" where
  "LoadInt64 w = sint w"

definition ReportMsg ::
  "('schema, 'auth, 'region) S3SplitFileInput \<Rightarrow> (string \<times> int \<times> string) list" where
  "ReportMsg i =
     [(''ProcessFileCount'', LoadInt64 (processFileCount i), ''count''),
      (''ProcessFileFailures'', LoadInt64 (processFileFailures i), ''count''),
      (''ProcessFileDiscardedBytes'', LoadInt64 (processFileDiscardedBytes i), ''B''),
      (''ProcessMessageCount'', LoadInt64 (processMessageCount i), ''count''),
      (''ProcessMessageFailures'', LoadInt64 (processMessageFailures i), ''count''),
      (''ProcessMessageBytes'', LoadInt64 (processMessageBytes i), ''B'')]"

section \<open>Notions used in the statements\<close>

text \<open>
  What a list of actions delivers, adds to a counter and logs; the results of an object
  that end the reading (an error that is not \<open>io.EOF\<close>); the records \<open>readS3File\<close> is to
  deliver from a sequence of results (those of positive length, up to the first such
  error) and the error it is to return; and the same for a plugin that may have no
  bucket.
\<close>

primrec delivers :: "action list \<Rightarrow> bytes list" where
  "delivers [] = []"
| "delivers (a # acts) = (case a of DeliverRecord r \<Rightarrow> r # delivers acts | _ \<Rightarrow> delivers acts)"

primrec added :: "counter \<Rightarrow> action list \<Rightarrow> 64 word" where
  "added c [] = 0"
| "added c (a # acts) = (case a of AddInt64 c' d \<Rightarrow> (if c' = c then d else 0) + added c acts | _ \<Rightarrow> added c acts)"

primrec messages :: "action list \<Rightarrow> action list" where
  "messages [] = []"
| "messages (a # acts) = (case a of LogMessage m \<Rightarrow> a # messages acts | LogError m \<Rightarrow> a # messages acts | _ \<Rightarrow> messages acts)"

definition hard_error :: "S3FileResult \<Rightarrow> bool" where
  "hard_error r = (case RecErr r of None \<Rightarrow> False | Some e \<Rightarrow> e \<noteq> EOF)"

definition records_read :: "S3FileResult list \<Rightarrow> bytes list" where
  "records_read rs = filter (\<lambda>r. length r > 0) (map Record (takeWhile (\<lambda>r. \<not> hard_error r) rs))"

definition read_error :: "S3FileResult list \<Rightarrow> go_error option" where
  "read_error rs = (case dropWhile (\<lambda>r. \<not> hard_error r) rs of [] \<Rightarrow> None | r # _ \<Rightarrow> RecErr r)"

definition fetch_error :: "('schema, 'auth, 'region) S3SplitFileInput \<Rightarrow> S3FileResult list \<Rightarrow> go_error option" where
  "fetch_error i rs = (if bucket i = None then None else read_error rs)"

definition fetch_records :: "('schema, 'auth, 'region) S3SplitFileInput \<Rightarrow> S3FileResult list \<Rightarrow> bytes list" where
  "fetch_records i rs = (if bucket i = None then [] else records_read rs)"

text \<open>
  What holds of every state of a run: \<open>stop\<close> is a channel; \<open>listChan\<close> is a channel of
  capacity 1000 holding at most 1000 keys, closed exactly when the lister is done; and a
  worker is done only after the lister.
\<close>

definition run_inv :: "('schema, 'auth, 'region) run_state \<Rightarrow> bool" where
  "run_inv s =
     (stop (input s) \<noteq> None \<and>
      (case listChan (input s) of
         None \<Rightarrow> False
       | Some ch \<Rightarrow>
           ch_cap ch = 1000 \<and> length (ch_buf ch) \<le> 1000 \<and> (ch_closed ch = (lister s = LDone))) \<and>
      (WDone \<in> set (workers s) \<longrightarrow> lister s = LDone))"

text \<open>
  The list of the amounts a list of actions adds to a counter. A slice of Go has fewer than \<open>2 ^ 63\<close>
  elements; the results and the leftovers a label carries are taken to be such slices.
  An addition fits when it does not overflow \<open>int64\<close>, and a run fits when every addition
  performed in it does: below, the counters are compared as long as none has wrapped.
\<close>

primrec adds :: "counter \<Rightarrow> action list \<Rightarrow> 64 word list" where
  "adds c [] = []"
| "adds c (a # acts) =
     (case a of AddInt64 c' d \<Rightarrow> (if c' = c then [d] else []) @ adds c acts | _ \<Rightarrow> adds c acts)"

definition go_slice :: "'a list \<Rightarrow> bool" where
  "go_slice xs = (length xs < 2 ^ 63)"

fun label_wf :: "label \<Rightarrow> bool" where
  "label_wf (WorkerRecv w rs leftovers duration) =
     (go_slice leftovers \<and> list_all (\<lambda>r. go_slice (Record r)) rs)"
| "label_wf l = True"

definition add_fits :: "action \<Rightarrow> ('schema, 'auth, 'region) S3SplitFileInput \<Rightarrow> bool" where
  "add_fits a i =
     (case a of AddInt64 c d \<Rightarrow> LoadInt64 (load_counter c i) + LoadInt64 d < 2 ^ 63 | _ \<Rightarrow> True)"

definition pending :: "worker_pc \<Rightarrow> action list" where
  "pending pc = (case pc of WBusy acts \<Rightarrow> acts | _ \<Rightarrow> [])"

definition step_fits :: "label \<Rightarrow> ('schema, 'auth, 'region) run_state \<Rightarrow> bool" where
  "step_fits l s =
     (label_wf l \<and>
      (case l of
         WorkerAct w \<Rightarrow>
           (if w < length (workers s)
            then (case pending (workers s ! w) of a # acts \<Rightarrow> add_fits a (input s) | [] \<Rightarrow> True)
            else True)
       | _ \<Rightarrow> True))"

fun run_fits :: "label list \<Rightarrow> ('schema, 'auth, 'region) run_state \<Rightarrow> bool" where
  "run_fits [] s = True"
| "run_fits (l # ls) s =
     (step_fits l s \<and> (case step l s of None \<Rightarrow> True | Some s' \<Rightarrow> run_fits ls s'))"

text \<open>
  For the comparison of the two file counters: what a worker's remaining actions still
  need of the difference between files counted and files failed (a failure is counted
  after its file), and the actions whose amounts are not negative and are 1 on the two
  file counters. For the accounting of a whole run: the turns started in it (one for
  each key a worker received), and what the workers have still to add to a counter.
\<close>

primrec need :: "action list \<Rightarrow> nat" where
  "need [] = 0"
| "need (a # acts) =
     (case a of
        AddInt64 c d \<Rightarrow>
          (if c = ProcessFileCount then need acts - 1
           else if c = ProcessFileFailures then Suc (need acts)
           else need acts)
      | _ \<Rightarrow> need acts)"

definition well_counted :: "action list \<Rightarrow> bool" where
  "well_counted acts =
     list_all (\<lambda>a. case a of
                     AddInt64 c d \<Rightarrow>
                       0 \<le> LoadInt64 d \<and> (c = ProcessFileCount \<or> c = ProcessFileFailures \<longrightarrow> d = 1)
                   | _ \<Rightarrow> True) acts"

definition file_free :: "action list \<Rightarrow> bool" where
  "file_free acts =
     list_all (\<lambda>a. case a of
                     AddInt64 c d \<Rightarrow> c \<noteq> ProcessFileCount \<and> c \<noteq> ProcessFileFailures
                   | _ \<Rightarrow> True) acts"

definition count_inv :: "('schema, 'auth, 'region) run_state \<Rightarrow> bool" where
  "count_inv s =
     (list_all (\<lambda>pc. well_counted (pending pc)) (workers s) \<and>
      LoadInt64 (processFileFailures (input s))
        + int (sum_list (map (\<lambda>pc. need (pending pc)) (workers s)))
        \<le> LoadInt64 (processFileCount (input s)))"

definition turn_of :: "label \<Rightarrow> ('schema, 'auth, 'region) run_state \<Rightarrow> action list list" where
  "turn_of l s =
     (case l of
        WorkerRecv w rs leftovers duration \<Rightarrow>
          (case chan_recv (listChan (input s)) of
             RecvVal s3Key c \<Rightarrow> [fetchKey (input s) rs leftovers duration s3Key]
           | _ \<Rightarrow> [])
      | _ \<Rightarrow> [])"

fun turns :: "label list \<Rightarrow> ('schema, 'auth, 'region) run_state \<Rightarrow> action list list" where
  "turns [] s = []"
| "turns (l # ls) s =
     (case step l s of None \<Rightarrow> [] | Some s' \<Rightarrow> turn_of l s @ turns ls s')"

definition outstanding :: "counter \<Rightarrow> ('schema, 'auth, 'region) run_state \<Rightarrow> 64 word" where
  "outstanding c s = sum_list (map (\<lambda>pc. added c (pending pc)) (workers s))"

text \<open>
  For the shutdown: the number of keys the lister sends in a run (its steps taken at the
  send); a worker that has seen \<open>stop\<close> or is done; the invariant that a worker drains only
  after \<open>stop\<close> has been closed; the keys waiting on \<open>listChan\<close>; and the rank of a state,
  which every step lowers (what the lister has still to do, the keys waiting and whether
  \<open>stop\<close> is still open; then what the workers have still to do), with the relation of a
  state to the states it steps to.
\<close>

definition is_send :: "lister_pc \<Rightarrow> bool" where
  "is_send pc = (case pc of LSend s3Key es \<Rightarrow> True | _ \<Rightarrow> False)"

fun sends :: "label list \<Rightarrow> ('schema, 'auth, 'region) run_state \<Rightarrow> nat" where
  "sends [] s = 0"
| "sends (l # ls) s =
     (case step l s of
        None \<Rightarrow> 0
      | Some s' \<Rightarrow> (if l = ListerStep \<and> is_send (lister s) then 1 else 0) + sends ls s')"

definition drained :: "worker_pc \<Rightarrow> bool" where
  "drained pc = (pc = WDrain \<or> pc = WDone)"

definition seen_inv :: "('schema, 'auth, 'region) run_state \<Rightarrow> bool" where
  "seen_inv s = (WDrain \<in> set (workers s) \<longrightarrow> chan_is_closed (stop (input s)))"

definition queued :: "('schema, 'auth, 'region) run_state \<Rightarrow> string list" where
  "queued s = (case listChan (input s) of None \<Rightarrow> [] | Some ch \<Rightarrow> ch_buf ch)"

fun lister_rank :: "lister_pc \<Rightarrow> nat" where
  "lister_rank (LStart es) = 3 * length es + 5"
| "lister_rank (LRange es) = 3 * length es + 2"
| "lister_rank (LSelect r es) = 3 * length es + 4"
| "lister_rank (LSend s3Key es) = 3 * length es + 3"
| "lister_rank LClose = 1"
| "lister_rank LDone = 0"

fun worker_rank :: "worker_pc \<Rightarrow> nat" where
  "worker_rank WSelect = 2"
| "worker_rank (WBusy acts) = length acts + 3"
| "worker_rank WDrain = 1"
| "worker_rank WDone = 0"

definition rank :: "('schema, 'auth, 'region) run_state \<Rightarrow> nat \<times> nat" where
  "rank s =
     (2 * lister_rank (lister s) + length (queued s)
        + (if chan_is_closed (stop (input s)) then 0 else 1),
      sum_list (map worker_rank (workers s)))"

definition stepped ::
  "(('schema, 'auth, 'region) run_state \<times> ('schema, 'auth, 'region) run_state) set" where
  "stepped = {(s', s). \<exists>l. step l s = Some s'}"

text \<open>
  The condition under which the listing loop sends a key: no filter, or the filter
  matches the key's base name.
\<close>

definition filter_allows :: "('schema, 'auth, 'region) S3SplitFileInput \<Rightarrow> string \<Rightarrow> bool" where
  "filter_allows i s3Key =
     (case objectMatch i of None \<Rightarrow> True | Some re \<Rightarrow> re (basename s3Key))"

section \<open>Example inputs\<close>

text \<open>
  A plugin initialised with two workers and a bucket, against collaborators that accept
  everything (and compile a pattern to the test for equality with it); three results of
  an object; a run state with one key waiting on \<open>listChan\<close>; results with an error in
  the middle; a plugin without a bucket; configurations with
  a region that \<open>aws.Regions\<close> does not know, without and with a bucket; and
  collaborators whose \<open>aws.GetAuth\<close> fails.
\<close>

definition example_env :: "(unit, unit, unit) collaborators" where
  "example_env =
     \<lparr>LoadSchema = (\<lambda>f. ((), None)),
      GetAuth = (\<lambda>k s. ((), None)),
      Regions = (\<lambda>r. if r = ''us-west-2'' then Some () else None),
      Compile = (\<lambda>p. Inr (\<lambda>s. s = p)),
      CleanBucketPrefix = (\<lambda>p. p)\<rparr>"

definition example_conf :: S3SplitFileInputConfig where
  "example_conf = ConfigStruct\<lparr>S3Bucket := ''telemetry'', S3WorkerCount := 2\<rparr>"

definition example_input :: "(unit, unit, unit) S3SplitFileInput" where
  "example_input = fst (Init example_env example_conf (newInput ()))"

definition example_results :: "S3FileResult list" where
  "example_results =
     [\<lparr>Record = [1, 2], RecErr = None\<rparr>, \<lparr>Record = [], RecErr = None\<rparr>,
      \<lparr>Record = [3], RecErr = Some EOF\<rparr>]"

definition example_state :: "(unit, unit, unit) run_state" where
  "example_state =
     \<lparr>input = example_input\<lparr>listChan := Some \<lparr>ch_closed = False, ch_buf = [''a/k''], ch_cap = 1000\<rparr>\<rparr>,
      lister = LRange [], workers = [WSelect, WSelect], logged = [], delivered = []\<rparr>"

definition example_failing_results :: "S3FileResult list" where
  "example_failing_results =
     [\<lparr>Record = [1, 2], RecErr = None\<rparr>, \<lparr>Record = [7], RecErr = Some (GoError ''reset'')\<rparr>,
      \<lparr>Record = [9], RecErr = None\<rparr>]"

definition example_no_bucket :: "(unit, unit, unit) S3SplitFileInput" where
  "example_no_bucket = fst (Init example_env ConfigStruct (newInput ()))"

definition example_bad_region :: S3SplitFileInputConfig where
  "example_bad_region = ConfigStruct\<lparr>AWSRegion := ''mars-1''\<rparr>"

definition example_bad_bucket_region :: S3SplitFileInputConfig where
  "example_bad_bucket_region = example_conf\<lparr>AWSRegion := ''mars-1''\<rparr>"

definition example_no_auth :: "(unit, unit, unit) collaborators" where
  "example_no_auth = example_env\<lparr>GetAuth := (\<lambda>k s. ((), Some (GoError ''No valid AWS authentication found'')))\<rparr>"

text \<open>
  The run of the example plugin over a listing of one key, at its start and with the
  lister about to send the key.
\<close>

definition example_run_start :: "(unit, unit, unit) run_state" where
  "example_run_start =
     \<lparr>input = example_input, lister = LStart [\<lparr>Key = ''a/k'', ListErr = None\<rparr>],
      workers = [WSelect, WSelect], logged = [], delivered = []\<rparr>"


text \<open>
  The same run with the key on the queue, the actions of the turn of a worker on it, and
  the run two actions into that turn.
\<close>

definition example_queued :: "(unit, unit, unit) run_state" where
  "example_queued =
     example_run_start
       \<lparr>input := example_input\<lparr>listChan := Some \<lparr>ch_closed = False, ch_buf = [''a/k''], ch_cap = 1000\<rparr>\<rparr>,
        lister := LRange [],
        logged := [LogMessage ''Starting S3 list'', LogMessage ''Found: a/k'']\<rparr>"

definition example_turn :: "action list" where
  "example_turn =
     [LogMessage ''Preparing to read: a/k'',
      AddInt64 ProcessMessageCount 1, AddInt64 ProcessMessageBytes 2, DeliverRecord [1, 2],
      AddInt64 ProcessMessageCount 1, AddInt64 ProcessMessageBytes 1, DeliverRecord [3],
      AddInt64 ProcessFileCount 1,
      LogMessage ''Successfully fetched a/k in 0.10s '']"

definition example_counting :: "(unit, unit, unit) run_state" where
  "example_counting =
     example_queued
       \<lparr>input := example_input\<lparr>processMessageCount := 1,
                  listChan := Some \<lparr>ch_closed = False, ch_buf = [], ch_cap = 1000\<rparr>\<rparr>,
        workers := [WBusy (drop 2 example_turn), WSelect],
        logged := [LogMessage ''Starting S3 list'', LogMessage ''Found: a/k'',
                   LogMessage ''Preparing to read: a/k'']\<rparr>"

text \<open>
  The same run after \<open>Stop\<close> has been called and worker 0 has seen it while the key is
  still on the queue, and after worker 1 has then received that key and started on it.
\<close>

definition example_observed :: "(unit, unit, unit) run_state" where
  "example_observed =
     example_queued
       \<lparr>input := (input example_queued)\<lparr>stop := Some \<lparr>ch_closed = True, ch_buf = [], ch_cap = 0\<rparr>\<rparr>,
        workers := [WDrain, WSelect]\<rparr>"

definition example_raced :: "(unit, unit, unit) run_state" where
  "example_raced =
     example_observed
       \<lparr>input := (input example_observed)
                  \<lparr>processMessageCount := 1,
                   listChan := Some \<lparr>ch_closed = False, ch_buf = [], ch_cap = 1000\<rparr>\<rparr>,
        workers := [WDrain, WBusy (drop 2 example_turn)],
        logged := [LogMessage ''Starting S3 list'', LogMessage ''Found: a/k'',
                   LogMessage ''Preparing to read: a/k'']\<rparr>"

text \<open>
  A plugin initialised with the filter \<open>a.gz\<close>, its run over a listing of two keys (at
  its start, at the head of the listing loop, once the first key has been sent, and
  at the head of the loop with \<open>Stop\<close> called), and the end of the lister in the run of the plugin without a filter when \<open>Stop\<close> is
  called while the lister has the key in hand.
\<close>

definition example_filter_conf :: S3SplitFileInputConfig where
  "example_filter_conf = example_conf\<lparr>S3ObjectMatchRegex := ''a.gz''\<rparr>"

definition example_filtering :: "(unit, unit, unit) S3SplitFileInput" where
  "example_filtering = fst (Init example_env example_filter_conf (newInput ()))"

definition example_listing :: "S3ListResult list" where
  "example_listing =
     [\<lparr>Key = ''x/y/a.gz'', ListErr = None\<rparr>, \<lparr>Key = ''b.txt'', ListErr = None\<rparr>]"

definition example_filter_start :: "(unit, unit, unit) run_state" where
  "example_filter_start =
     \<lparr>input = example_filtering, lister = LStart example_listing,
      workers = [WSelect, WSelect], logged = [], delivered = []\<rparr>"

definition example_filter_head :: "(unit, unit, unit) run_state" where
  "example_filter_head =
     example_filter_start
       \<lparr>lister := LRange example_listing, logged := [LogMessage ''Starting S3 list'']\<rparr>"

definition example_filter_sent :: "(unit, unit, unit) run_state" where
  "example_filter_sent =
     example_filter_start
       \<lparr>input := example_filtering
                  \<lparr>listChan := Some \<lparr>ch_closed = False, ch_buf = [''x/y/a.gz''], ch_cap = 1000\<rparr>\<rparr>,
        lister := LRange [\<lparr>Key = ''b.txt'', ListErr = None\<rparr>],
        logged := [LogMessage ''Starting S3 list'', LogMessage ''Found: x/y/a.gz'']\<rparr>"

definition example_filter_stopped :: "(unit, unit, unit) run_state" where
  "example_filter_stopped =
     example_filter_head
       \<lparr>input := example_filtering\<lparr>stop := Some \<lparr>ch_closed = True, ch_buf = [], ch_cap = 0\<rparr>\<rparr>\<rparr>"

definition example_dropped :: "(unit, unit, unit) run_state" where
  "example_dropped =
     example_run_start
       \<lparr>input := example_input
                  \<lparr>stop := Some \<lparr>ch_closed = True, ch_buf = [], ch_cap = 0\<rparr>,
                   listChan := Some \<lparr>ch_closed = True, ch_buf = [], ch_cap = 1000\<rparr>\<rparr>,
        lister := LDone,
        logged := [LogMessage ''Starting S3 list'', LogMessage ''Stopping S3 list'',
                   LogMessage ''All done listing. Closing channel'']\<rparr>"

section \<open>Performing actions\<close>

lemma load_add_counter: "load_counter c (add_counter c' d i) = load_counter c i + (if c' = c then d else 0)"
  by (cases c; cases c') simp_all

lemma perform_all_Nil [simp]: "perform_all w [] s = s"
  by (simp add: perform_all_def)

lemma perform_all_Cons [simp]: "perform_all w (a # acts) s = perform_all w acts (perform w a s)"
  by (simp add: perform_all_def)

lemma delivered_perform_all: "delivered (perform_all w acts s) = delivered s @ map (Pair w) (delivers acts)"
  by (induction acts arbitrary: s) (auto split: action.splits)

lemma logged_perform_all: "logged (perform_all w acts s) = logged s @ messages acts"
  by (induction acts arbitrary: s) (auto split: action.splits)

lemma counter_perform_all: "load_counter c (input (perform_all w acts s)) = load_counter c (input s) + added c acts"
  by (induction acts arbitrary: s) (auto split: action.splits simp: load_add_counter)

lemma workers_perform [simp]: "workers (perform w a s) = workers s"
  by (cases a) simp_all
lemma lister_perform [simp]: "lister (perform w a s) = lister s"
  by (cases a) simp_all

lemma chans_add_counter [simp]: "stop (add_counter c d i) = stop i" "listChan (add_counter c d i) = listChan i"
  "bucket (add_counter c d i) = bucket i" "config (add_counter c d i) = config i" "objectMatch (add_counter c d i) = objectMatch i"
  by (cases c; simp)+

lemma perform_workers_update: "perform w a (s\<lparr>workers := ws\<rparr>) = (perform w a s)\<lparr>workers := ws\<rparr>"
  by (cases a) simp_all

lemma perform_all_workers_update: "perform_all w acts (s\<lparr>workers := ws\<rparr>) = (perform_all w acts s)\<lparr>workers := ws\<rparr>"
  by (induction acts arbitrary: s) (simp_all add: perform_workers_update)

lemma exec_turn:
  "w < length (workers s) \<Longrightarrow> workers s ! w = WBusy acts \<Longrightarrow>
   exec (replicate (Suc (length acts)) (WorkerAct w)) s
     = Some ((perform_all w acts s)\<lparr>workers := (workers s)[w := WSelect]\<rparr>)"
proof (induction acts arbitrary: s)
  case Nil
  then show ?case by simp
next
  case (Cons a acts)
  let ?s1 = "(perform w a s)\<lparr>workers := (workers s)[w := WBusy acts]\<rparr>"
  have st: "step (WorkerAct w) s = Some ?s1" using Cons.prems by simp
  have "exec (replicate (Suc (length acts)) (WorkerAct w)) ?s1
     = Some ((perform_all w acts ?s1)\<lparr>workers := (workers ?s1)[w := WSelect]\<rparr>)"
    by (rule Cons.IH) (use Cons.prems in simp_all)
  moreover have "perform_all w acts ?s1 = (perform_all w acts (perform w a s))\<lparr>workers := (workers s)[w := WBusy acts]\<rparr>"
    by (simp add: perform_all_workers_update)
  ultimately show ?case using st by simp
qed

section \<open>What reading an object does\<close>

lemma readLoop_hard:
  "hard_error r \<Longrightarrow> readLoop k (r # rs) =
     ([LogError (''Error reading '' @ k @ '': '' @ Error (the (RecErr r))), AddInt64 ProcessMessageFailures 1], RecErr r)"
  by (auto simp: hard_error_def split: option.splits)

lemma readLoop_soft:
  "\<not> hard_error r \<Longrightarrow> readLoop k (r # rs) =
     ((if length (Record r) > 0
       then [AddInt64 ProcessMessageCount 1, AddInt64 ProcessMessageBytes (of_nat (length (Record r))), DeliverRecord (Record r)]
       else []) @ fst (readLoop k rs), snd (readLoop k rs))"
  by (auto simp: hard_error_def Let_def split: option.splits prod.splits)

declare readLoop.simps(2) [simp del]

lemma delivers_append [simp]: "delivers (xs @ ys) = delivers xs @ delivers ys"
  by (induction xs) (auto split: action.splits)
lemma added_append [simp]: "added c (xs @ ys) = added c xs + added c ys"
  by (induction xs) (auto split: action.splits)
lemma messages_append [simp]: "messages (xs @ ys) = messages xs @ messages ys"
  by (induction xs) (auto split: action.splits)

lemma readLoop_delivers: "delivers (fst (readLoop k rs)) = records_read rs"
proof (induction rs)
  case Nil then show ?case by (simp add: records_read_def)
next
  case (Cons r rs)
  show ?case
  proof (cases "hard_error r")
    case True then show ?thesis by (simp add: readLoop_hard records_read_def)
  next
    case False then show ?thesis using Cons.IH by (simp add: readLoop_soft records_read_def)
  qed
qed

lemma readLoop_err: "snd (readLoop k rs) = read_error rs"
proof (induction rs)
  case Nil then show ?case by (simp add: read_error_def)
next
  case (Cons r rs)
  show ?case
  proof (cases "hard_error r")
    case True then show ?thesis by (simp add: readLoop_hard read_error_def)
  next
    case False then show ?thesis using Cons.IH by (simp add: readLoop_soft read_error_def)
  qed
qed

lemma readLoop_added:
  "added c (fst (readLoop k rs)) =
     (case c of
        ProcessMessageCount \<Rightarrow> of_nat (length (records_read rs))
      | ProcessMessageBytes \<Rightarrow> of_nat (sum_list (map length (records_read rs)))
      | ProcessMessageFailures \<Rightarrow> (if read_error rs = None then 0 else 1)
      | _ \<Rightarrow> 0)"
proof (induction rs)
  case Nil then show ?case by (simp add: records_read_def read_error_def split: counter.splits)
next
  case (Cons r rs)
  show ?case
  proof (cases "hard_error r")
    case True then show ?thesis by (auto simp add: readLoop_hard records_read_def read_error_def hard_error_def split: counter.splits option.splits)
  next
    case False then show ?thesis using Cons.IH by (auto simp add: readLoop_soft records_read_def read_error_def split: counter.splits)
  qed
qed

lemma read_error_hard: "read_error rs = Some e \<Longrightarrow> e \<noteq> EOF"
proof -
  assume a: "read_error rs = Some e"
  then obtain r rest where d: "dropWhile (\<lambda>r. \<not> hard_error r) rs = r # rest" and e: "RecErr r = Some e"
    by (auto simp: read_error_def split: list.splits)
  from d have "hard_error r" using hd_dropWhile[of "\<lambda>r. \<not> hard_error r" rs] by auto
  with e show ?thesis by (simp add: hard_error_def)
qed

lemma readS3File_nil:
  "bucket i = None \<Longrightarrow> readS3File i rs k =
     ([LogMessage (''Preparing to read: '' @ k), LogMessage (''Dude, where's my bucket: '' @ k)], None)"
  by (simp add: readS3File_def)

lemma readS3File_bucket:
  "bucket i \<noteq> None \<Longrightarrow> readS3File i rs k =
     (LogMessage (''Preparing to read: '' @ k) # fst (readLoop k rs), read_error rs)"
proof -
  assume b: "bucket i \<noteq> None"
  obtain acts e where rl: "readLoop k rs = (acts, e)" by (cases "readLoop k rs")
  with readLoop_err [of k rs] have e: "e = read_error rs" by simp
  from b obtain y where "bucket i = Some y" by auto
  with rl e show ?thesis by (simp add: readS3File_def)
qed

lemma readS3File_delivers: "delivers (fst (readS3File i rs k)) = fetch_records i rs"
  by (cases "bucket i") (simp_all add: readS3File_nil readS3File_bucket fetch_records_def readLoop_delivers)

lemma readS3File_err: "snd (readS3File i rs k) = fetch_error i rs"
  by (cases "bucket i") (simp_all add: readS3File_nil readS3File_bucket fetch_error_def)

lemma readS3File_added:
  "added c (fst (readS3File i rs k)) =
     (case c of
        ProcessMessageCount \<Rightarrow> of_nat (length (fetch_records i rs))
      | ProcessMessageBytes \<Rightarrow> of_nat (sum_list (map length (fetch_records i rs)))
      | ProcessMessageFailures \<Rightarrow> (if fetch_error i rs = None then 0 else 1)
      | _ \<Rightarrow> 0)"
  by (cases "bucket i")
     (simp_all add: readS3File_nil readS3File_bucket fetch_records_def fetch_error_def readLoop_added split: counter.splits)

lemma fetch_error_hard: "fetch_error i rs = Some e \<Longrightarrow> e \<noteq> EOF"
  by (auto simp: fetch_error_def dest: read_error_hard split: if_splits)

lemma fetchKey_eq:
  "fetchKey i rs left dur k =
     fst (readS3File i rs k) @ [AddInt64 ProcessFileCount 1] @
     (if length left > 0 then
        [AddInt64 ProcessFileDiscardedBytes (of_nat (length left)),
         LogError (''Trailing data, possible corruption: '' @ show_nat (length left) @
                   '' bytes left in stream at EOF: '' @ k)]
      else []) @
     (case fetch_error i rs of
        None \<Rightarrow> [LogMessage (''Successfully fetched '' @ k @ '' in '' @ dur @ ''s '')]
      | Some e \<Rightarrow> [LogError (''Error reading '' @ k @ '': '' @ Error e), AddInt64 ProcessFileFailures 1])"
proof -
  obtain acts e where rd: "readS3File i rs k = (acts, e)" by (cases "readS3File i rs k")
  with readS3File_err [of i rs k] have e: "fetch_error i rs = e" by simp
  show ?thesis
  proof (cases e)
    case None
    with rd e show ?thesis by (simp add: fetchKey_def Let_def)
  next
    case (Some x)
    with e fetch_error_hard [of i rs x] have "x \<noteq> EOF" by simp
    with rd e Some show ?thesis by (simp add: fetchKey_def Let_def)
  qed
qed

lemma fetchKey_delivers: "delivers (fetchKey i rs left dur k) = fetch_records i rs"
  by (simp add: fetchKey_eq readS3File_delivers split: option.splits)

lemma fetchKey_added:
  "added c (fetchKey i rs left dur k) =
     (case c of
        ProcessFileCount \<Rightarrow> 1
      | ProcessFileFailures \<Rightarrow> (if fetch_error i rs = None then 0 else 1)
      | ProcessFileDiscardedBytes \<Rightarrow> of_nat (length left)
      | ProcessMessageCount \<Rightarrow> of_nat (length (fetch_records i rs))
      | ProcessMessageBytes \<Rightarrow> of_nat (sum_list (map length (fetch_records i rs)))
      | ProcessMessageFailures \<Rightarrow> (if fetch_error i rs = None then 0 else 1))"
  by (cases c) (auto simp add: fetchKey_eq readS3File_added split: option.splits)

lemma example_input_eq:
  "example_input = (newInput ())\<lparr>config := Some example_conf,
      bucket := Some \<lparr>BucketS3 = \<lparr>S3Auth = (), S3Region = (), ConnectTimeout = 60000000000, ReadTimeout = 60000000000\<rparr>, BucketName = ''telemetry''\<rparr>,
      stop := make_chan 0, listChan := make_chan 1000\<rparr>"
  by (simp add: example_input_def Init_def example_env_def example_conf_def ConfigStruct_def
      initBucket_def initObjectMatch_def newInput_def seconds_def)

lemma worker_turn:
  fixes rs left dur
  assumes w: "w < length (workers s)" "workers s ! w = WSelect"
    and recv: "chan_recv (listChan (input s)) = RecvVal k c"
  defines "acts \<equiv> fetchKey (input s) rs left dur k"
  shows "exec (WorkerRecv w rs left dur # replicate (Suc (length acts)) (WorkerAct w)) s
     = Some ((perform_all w acts (s\<lparr>input := (input s)\<lparr>listChan := c\<rparr>\<rparr>))\<lparr>workers := (workers s)[w := WSelect]\<rparr>)"
proof -
  let ?s1 = "s\<lparr>input := (input s)\<lparr>listChan := c\<rparr>, workers := (workers s)[w := WBusy acts]\<rparr>"
  have st: "step (WorkerRecv w rs left dur) s = Some ?s1"
    using w recv by (simp add: acts_def)
  have "exec (replicate (Suc (length acts)) (WorkerAct w)) ?s1
     = Some ((perform_all w acts ?s1)\<lparr>workers := (workers ?s1)[w := WSelect]\<rparr>)"
    by (rule exec_turn) (use w in simp_all)
  then show ?thesis using st
    by (simp add: perform_all_workers_update del: replicate_Suc exec.simps(2) step.simps)
       (simp add: exec.simps(2))
qed

section \<open>Records of length zero\<close>

text \<open>
  Claim C10. While it reads an object, \<open>readS3File\<close> delivers a record and counts it (one
  more record processed, its length more record bytes) only when the record's length is
  positive; a record of length zero is neither delivered nor counted. Stated for a
  plugin with a bucket and any sequence of results: the records delivered (to the
  worker's deliverer, in order) are exactly the results' records of positive length up
  to the first error that is not \<open>io.EOF\<close>, the records-processed counter grows by their
  number, and the record-bytes counter by the sum of their lengths.
\<close>

theorem readS3File_delivers_nonempty:
  assumes "bucket (input s) \<noteq> None"
  shows "(\<forall>r \<in> set (records_read rs). length r > 0) \<and>
         delivered (perform_all w (fst (readS3File (input s) rs k)) s)
           = delivered s @ map (Pair w) (records_read rs) \<and>
         processMessageCount (input (perform_all w (fst (readS3File (input s) rs k)) s))
           = processMessageCount (input s) + of_nat (length (records_read rs)) \<and>
         processMessageBytes (input (perform_all w (fst (readS3File (input s) rs k)) s))
           = processMessageBytes (input s) + of_nat (sum_list (map length (records_read rs)))"
proof -
  have fr: "fetch_records (input s) rs = records_read rs"
    using assms by (auto simp add: fetch_records_def)
  have c: "load_counter ProcessMessageCount (input (perform_all w (fst (readS3File (input s) rs k)) s))
      = load_counter ProcessMessageCount (input s) + of_nat (length (records_read rs))"
    by (simp only: counter_perform_all readS3File_added fr counter.case)
  have b: "load_counter ProcessMessageBytes (input (perform_all w (fst (readS3File (input s) rs k)) s))
      = load_counter ProcessMessageBytes (input s) + of_nat (sum_list (map length (records_read rs)))"
    by (simp only: counter_perform_all readS3File_added fr counter.case)
  have d: "delivered (perform_all w (fst (readS3File (input s) rs k)) s)
           = delivered s @ map (Pair w) (records_read rs)"
    by (simp add: delivered_perform_all readS3File_delivers fr)
  have n: "\<forall>r \<in> set (records_read rs). length r > 0"
    by (simp add: records_read_def)
  from n d c b show ?thesis by simp
qed

theorem readS3File_delivers_nonempty_witness:
  "bucket (input example_state) \<noteq> None \<and>
   records_read example_results = [[1, 2], [3]] \<and>
   delivered (perform_all 0 (fst (readS3File (input example_state) example_results ''a/k'')) example_state)
     = [(0, [1, 2]), (0, [3])] \<and>
   processMessageCount (input (perform_all 0 (fst (readS3File (input example_state) example_results ''a/k'')) example_state)) = 2 \<and>
   processMessageBytes (input (perform_all 0 (fst (readS3File (input example_state) example_results ''a/k'')) example_state)) = 3"
  using readS3File_delivers_nonempty [of example_state example_results 0 "''a/k''"]
  by (simp add: example_state_def example_input_eq example_results_def records_read_def hard_error_def newInput_def)

section \<open>Init\<close>

lemma Init_ok:
  "Init env conf i0 = (i, None) \<longleftrightarrow>
     snd (LoadSchema env (SchemaFile conf)) = None \<and>
     (\<exists>b re. initBucket env conf = Inr b \<and> initObjectMatch env conf = (re, None) \<and>
        i = i0\<lparr>config := Some (conf\<lparr>S3BucketPrefix := CleanBucketPrefix env (S3BucketPrefix conf)\<rparr>),
               schema := fst (LoadSchema env (SchemaFile conf)),
               bucket := b, objectMatch := re,
               stop := make_chan 0, listChan := make_chan 1000\<rparr>)"
  by (auto simp: Init_def Let_def split: prod.splits option.splits sum.splits)

lemma initBucket_empty: "S3Bucket conf = '''' \<Longrightarrow> initBucket env conf = Inr None"
  by (simp add: initBucket_def)

lemma Init_err:
  "(snd (Init env conf i0) \<noteq> None)
     = (snd (LoadSchema env (SchemaFile conf)) \<noteq> None \<or>
        S3Bucket conf \<noteq> '''' \<and>
          (snd (GetAuth env (AWSKey conf) (AWSSecretKey conf)) \<noteq> None \<or>
           Regions env (AWSRegion conf) = None) \<or>
        S3ObjectMatchRegex conf \<noteq> '''' \<and> isl (Compile env (S3ObjectMatchRegex conf)))"
  by (auto simp: Init_def Let_def initBucket_def initObjectMatch_def
      split: prod.splits option.splits sum.splits if_splits)

lemma Init_err_chans:
  "snd (Init env conf i0) \<noteq> None \<Longrightarrow>
     stop (fst (Init env conf i0)) = stop i0 \<and> listChan (fst (Init env conf i0)) = listChan i0"
  by (auto simp: Init_def Let_def split: prod.splits option.splits sum.splits if_splits)

lemma Init_ok_chans:
  "snd (Init env conf i0) = None \<Longrightarrow>
     stop (fst (Init env conf i0)) = make_chan 0 \<and> listChan (fst (Init env conf i0)) = make_chan 1000"
  by (auto simp: Init_def Let_def split: prod.splits option.splits sum.splits if_splits)

lemma nil_chans_block:
  "stop (input s) = None \<Longrightarrow> listChan (input s) = None \<Longrightarrow>
   step (WorkerRecv w rs left dur) s = None \<and> step (WorkerStop w) s = None \<and> step (WorkerDrain w) s = None"
  by (simp add: chan_recv_def chan_is_closed_def)

text \<open>
  Claim C9, as the code has it. The claim reads: \<open>Init\<close> returns an error whenever the
  schema fails to load, the region is not a known one, authentication fails or the
  expression fails to compile, and then no channel is created. The code looks at the
  credentials and at the region only when \<open>S3Bucket\<close> is not empty: with an empty
  \<open>S3Bucket\<close>, a region \<open>aws.Regions\<close> does not know, or credentials \<open>aws.GetAuth\<close> refuses,
  leave \<open>Init\<close> returning \<open>nil\<close> with both channels made.
\<close>

theorem Init_unknown_region_counterexample:
  "S3Bucket example_bad_region = '''' \<and>
   Regions example_env (AWSRegion example_bad_region) = None \<and>
   Init example_env example_bad_region (newInput ())
     = ((newInput ())\<lparr>config := Some example_bad_region, stop := make_chan 0, listChan := make_chan 1000\<rparr>, None) \<and>
   snd (GetAuth example_no_auth (AWSKey ConfigStruct) (AWSSecretKey ConfigStruct)) \<noteq> None \<and>
   snd (Init example_no_auth ConfigStruct (newInput ())) = None"
  by (simp add: example_bad_region_def example_env_def example_no_auth_def ConfigStruct_def Init_def
      initBucket_def initObjectMatch_def newInput_def)

text \<open>
  Claim C9, amended. \<open>Init\<close> returns an error exactly when the schema fails to load, or
  \<open>S3Bucket\<close> is not empty and authentication fails or the region is not a known one, or
  \<open>S3ObjectMatchRegex\<close> is not empty and fails to compile. On an error the two channel
  fields are left as they were (nil, for a new plugin), and on them no worker of a run
  could take a key, see \<open>stop\<close> or drain; without an error \<open>stop\<close> is a new unbuffered
  channel and \<open>listChan\<close> a new channel of capacity 1000.
\<close>

theorem Init_error_cases:
  "(snd (Init env conf i0) \<noteq> None)
     = (snd (LoadSchema env (SchemaFile conf)) \<noteq> None \<or>
        S3Bucket conf \<noteq> '''' \<and>
          (snd (GetAuth env (AWSKey conf) (AWSSecretKey conf)) \<noteq> None \<or>
           Regions env (AWSRegion conf) = None) \<or>
        S3ObjectMatchRegex conf \<noteq> '''' \<and> isl (Compile env (S3ObjectMatchRegex conf))) \<and>
   (snd (Init env conf i0) \<noteq> None \<longrightarrow>
      stop (fst (Init env conf i0)) = stop i0 \<and> listChan (fst (Init env conf i0)) = listChan i0) \<and>
   (snd (Init env conf i0) = None \<longrightarrow>
      stop (fst (Init env conf i0)) = make_chan 0 \<and>
      listChan (fst (Init env conf i0)) = make_chan 1000) \<and>
   (snd (Init env conf (newInput sch)) \<noteq> None \<longrightarrow>
      (\<forall>s w rs left dur. input s = fst (Init env conf (newInput sch)) \<longrightarrow>
         step (WorkerRecv w rs left dur) s = None \<and> step (WorkerStop w) s = None \<and>
         step (WorkerDrain w) s = None))"
proof -
  have "\<forall>s w rs left dur. input s = fst (Init env conf (newInput sch)) \<longrightarrow>
         step (WorkerRecv w rs left dur) s = None \<and> step (WorkerStop w) s = None \<and>
         step (WorkerDrain w) s = None"
    if e: "snd (Init env conf (newInput sch)) \<noteq> None"
  proof (intro allI impI)
    fix s :: "('a, 'b, 'c) run_state" and w rs left dur
    assume i: "input s = fst (Init env conf (newInput sch))"
    from Init_err_chans [OF e] i have "stop (input s) = None" "listChan (input s) = None"
      by (simp_all add: newInput_def)
    then show "step (WorkerRecv w rs left dur) s = None \<and> step (WorkerStop w) s = None \<and>
         step (WorkerDrain w) s = None" by (rule nil_chans_block)
  qed
  with Init_err [of env conf i0] Init_err_chans [of env conf i0] Init_ok_chans [of env conf i0]
  show ?thesis by blast
qed

theorem Init_error_cases_witness:
  "S3Bucket example_bad_bucket_region \<noteq> '''' \<and>
   Regions example_env (AWSRegion example_bad_bucket_region) = None \<and>
   snd (Init example_env example_bad_bucket_region (newInput ())) \<noteq> None \<and>
   stop (fst (Init example_env example_bad_bucket_region (newInput ()))) = None \<and>
   listChan (fst (Init example_env example_bad_bucket_region (newInput ()))) = None \<and>
   snd (Init example_env example_conf (newInput ())) = None \<and>
   listChan (fst (Init example_env example_conf (newInput ()))) = make_chan 1000"
proof -
  have r: "S3Bucket example_bad_bucket_region \<noteq> ''''"
     "Regions example_env (AWSRegion example_bad_bucket_region) = None"
    by (simp_all add: example_bad_bucket_region_def example_conf_def ConfigStruct_def example_env_def)
  note t = Init_error_cases [of example_env example_bad_bucket_region "newInput ()" "()"]
  from t [THEN conjunct1] r
  have e: "snd (Init example_env example_bad_bucket_region (newInput ())) \<noteq> None" by simp
  from t [THEN conjunct2, THEN conjunct1] e
  have c: "stop (fst (Init example_env example_bad_bucket_region (newInput ()))) = None \<and>
      listChan (fst (Init example_env example_bad_bucket_region (newInput ()))) = None"
    by (simp add: newInput_def)
  note u = Init_error_cases [of example_env example_conf "newInput ()" "()"]
  from u [THEN conjunct1]
  have ok: "snd (Init example_env example_conf (newInput ())) = None"
    by (simp add: example_conf_def ConfigStruct_def example_env_def)
  from u [THEN conjunct2, THEN conjunct2, THEN conjunct1] ok
  have "listChan (fst (Init example_env example_conf (newInput ()))) = make_chan 1000" by simp
  with r e c ok show ?thesis by (simp add: newInput_def)
qed

section \<open>Stop\<close>

text \<open>
  Claim C1, as the code has it. The claim reads: a second \<open>Stop\<close> neither panics nor
  deadlocks. \<open>Stop\<close> closes \<open>stop\<close> with no guard, so the second call on an initialised plugin
  panics (close of a closed channel).
\<close>

theorem Stop_twice_counterexample:
  "Init example_env example_conf (newInput ()) = (example_input, None) \<and>
   Stop example_input
     = Inr (example_input\<lparr>stop := Some \<lparr>ch_closed = True, ch_buf = [], ch_cap = 0\<rparr>\<rparr>) \<and>
   Stop (example_input\<lparr>stop := Some \<lparr>ch_closed = True, ch_buf = [], ch_cap = 0\<rparr>\<rparr>)
     = Inl CloseOfClosedChannel"
  by (simp add: example_input_def Init_def example_env_def example_conf_def ConfigStruct_def
      initBucket_def initObjectMatch_def newInput_def seconds_def Stop_def close_chan_def make_chan_def)

text \<open>
  Claim C1, amended. On every plugin that \<open>Init\<close> has initialised, the first \<open>Stop\<close> returns
  with \<open>stop\<close> closed and nothing else changed, and a second \<open>Stop\<close> panics with the close
  of a closed channel; neither call blocks (\<open>Stop\<close> is a function here: it returns or
  panics).
\<close>

theorem Stop_once_then_panics:
  assumes "Init env conf i0 = (i, None)"
  shows "Stop i = Inr (i\<lparr>stop := Some \<lparr>ch_closed = True, ch_buf = [], ch_cap = 0\<rparr>\<rparr>) \<and>
         Stop (i\<lparr>stop := Some \<lparr>ch_closed = True, ch_buf = [], ch_cap = 0\<rparr>\<rparr>)
           = Inl CloseOfClosedChannel"
proof -
  from assms have s: "stop i = make_chan 0" by (auto simp: Init_ok)
  have a: "Stop i = Inr (i\<lparr>stop := Some \<lparr>ch_closed = True, ch_buf = [], ch_cap = 0\<rparr>\<rparr>)"
    by (simp add: Stop_def close_chan_def s make_chan_def)
  have b: "Stop (i\<lparr>stop := Some \<lparr>ch_closed = True, ch_buf = [], ch_cap = 0\<rparr>\<rparr>)
           = Inl CloseOfClosedChannel"
    by (simp add: Stop_def close_chan_def)
  from a b show ?thesis by blast
qed

theorem Stop_once_then_panics_witness:
  "Init example_env example_conf (newInput ()) = (example_input, None) \<and>
   Stop example_input
     = Inr (example_input\<lparr>stop := Some \<lparr>ch_closed = True, ch_buf = [], ch_cap = 0\<rparr>\<rparr>) \<and>
   Stop (example_input\<lparr>stop := Some \<lparr>ch_closed = True, ch_buf = [], ch_cap = 0\<rparr>\<rparr>)
     = Inl CloseOfClosedChannel"
proof -
  have i: "Init example_env example_conf (newInput ()) = (example_input, None)"
    by (simp add: example_input_def Init_def example_env_def example_conf_def ConfigStruct_def
      initBucket_def initObjectMatch_def)
  from Stop_once_then_panics [OF i] i show ?thesis by blast
qed

section \<open>A plugin without a bucket\<close>

text \<open>
  Claim C6. When no bucket is configured (\<open>S3Bucket\<close> is empty, so \<open>Init\<close> leaves \<open>bucket\<close>
  nil), \<open>readS3File\<close> returns at once for every key and whatever the object would have
  yielded: it logs its two messages, delivers no record, changes no counter (no record
  bytes, no record counted, no failure) and returns a nil error.
\<close>

theorem no_bucket_reads_nothing:
  assumes init: "Init env conf i0 = (i, None)" and empty: "S3Bucket conf = ''''"
    and run: "bucket (input s) = bucket i"
  shows "bucket i = None \<and>
         readS3File (input s) rs k
           = ([LogMessage (''Preparing to read: '' @ k),
               LogMessage (''Dude, where's my bucket: '' @ k)], None) \<and>
         delivered (perform_all w (fst (readS3File (input s) rs k)) s) = delivered s \<and>
         input (perform_all w (fst (readS3File (input s) rs k)) s) = input s"
proof -
  from init empty have b: "bucket i = None"
    by (auto simp: Init_ok initBucket_empty)
  with run have "bucket (input s) = None" by simp
  then have r: "readS3File (input s) rs k
           = ([LogMessage (''Preparing to read: '' @ k),
               LogMessage (''Dude, where's my bucket: '' @ k)], None)"
    by (rule readS3File_nil)
  show ?thesis using b r by simp
qed

lemma example_no_bucket_Init: "Init example_env ConfigStruct (newInput ()) = (example_no_bucket, None)"
  by (simp add: example_no_bucket_def Init_def example_env_def ConfigStruct_def initBucket_def initObjectMatch_def)

theorem no_bucket_reads_nothing_witness:
  "Init example_env ConfigStruct (newInput ()) = (example_no_bucket, None) \<and>
   S3Bucket ConfigStruct = '''' \<and>
   readS3File example_no_bucket example_failing_results ''a/k''
     = ([LogMessage ''Preparing to read: a/k'', LogMessage ''Dude, where's my bucket: a/k''], None)"
  using no_bucket_reads_nothing [OF example_no_bucket_Init, where
      s = "\<lparr>input = example_no_bucket, lister = LDone, workers = [], logged = [], delivered = []\<rparr>"
      and rs = example_failing_results and k = "''a/k''"]
  by (simp add: example_no_bucket_Init) (simp add: ConfigStruct_def)

section \<open>A whole turn of a worker\<close>

lemma records_read_prefix:
  assumes "\<forall>x\<in>set pre. \<not> hard_error x" "hard_error r"
  shows "records_read (pre @ r # post) = filter (\<lambda>x. length x > 0) (map Record pre)"
    and "read_error (pre @ r # post) = RecErr r"
proof -
  have tw: "takeWhile (\<lambda>r. \<not> hard_error r) (pre @ r # post) = pre"
    using assms by (simp add: takeWhile_tail)
  have dw: "dropWhile (\<lambda>r. \<not> hard_error r) (pre @ r # post) = r # post"
    using assms by (simp add: dropWhile_append3)
  show "records_read (pre @ r # post) = filter (\<lambda>x. length x > 0) (map Record pre)"
    by (simp only: records_read_def tw)
  show "read_error (pre @ r # post) = RecErr r"
    by (simp add: read_error_def dw)
qed

lemma load_counter_chan_update [simp]:
  "load_counter cn (i\<lparr>listChan := c\<rparr>) = load_counter cn i"
  "load_counter cn (i\<lparr>stop := c'\<rparr>) = load_counter cn i"
  by (cases cn; simp)+

lemma lister_perform_all [simp]: "lister (perform_all w acts t) = lister t"
  by (induction acts arbitrary: t) simp_all

lemma workers_perform_all [simp]: "workers (perform_all w acts t) = workers t"
  by (induction acts arbitrary: t) simp_all

lemma turn_counter:
  assumes w: "w < length (workers s)" "workers s ! w = WSelect"
    and recv: "chan_recv (listChan (input s)) = RecvVal k c"
    and ex: "exec (WorkerRecv w rs left dur # replicate (Suc (length (fetchKey (input s) rs left dur k))) (WorkerAct w)) s = Some s2"
  shows "load_counter cn (input s2) = load_counter cn (input s) + added cn (fetchKey (input s) rs left dur k)"
    and "delivered s2 = delivered s @ map (Pair w) (delivers (fetchKey (input s) rs left dur k))"
    and "logged s2 = logged s @ messages (fetchKey (input s) rs left dur k)"
    and "workers s2 = (workers s)[w := WSelect]"
    and "lister s2 = lister s"
proof -
  let ?acts = "fetchKey (input s) rs left dur k"
  let ?s0 = "s\<lparr>input := (input s)\<lparr>listChan := c\<rparr>\<rparr>"
  have s2: "s2 = (perform_all w ?acts ?s0)\<lparr>workers := (workers s)[w := WSelect]\<rparr>"
    using worker_turn [OF w recv, of rs left dur] ex by simp
  show "load_counter cn (input s2) = load_counter cn (input s) + added cn ?acts"
    by (simp add: s2 counter_perform_all)
  show "delivered s2 = delivered s @ map (Pair w) (delivers ?acts)"
    by (simp add: s2 delivered_perform_all)
  show "logged s2 = logged s @ messages ?acts"
    by (simp add: s2 logged_perform_all)
  show "workers s2 = (workers s)[w := WSelect]"
    by (simp add: s2)
  show "lister s2 = lister s" by (simp add: s2)
qed

lemma example_chan_recv:
  "chan_recv (listChan (input example_state)) = RecvVal ''a/k'' (Some \<lparr>ch_closed = False, ch_buf = [], ch_cap = 1000\<rparr>)"
  by (simp add: example_state_def chan_recv_def)

text \<open>
  Claim C3. When the results of an object hold an error other than \<open>io.EOF\<close>, the worker's
  turn on its key (the receive and then every action of the turn, one step each) ends
  with: the records of positive length before the error delivered and nothing after
  them, the record-failure counter one higher, the file-failure counter one higher
  (and the file counted), and the worker back at its \<open>select\<close> for the next key.
\<close>

theorem fetch_error_counted_once:
  assumes w: "w < length (workers s)" "workers s ! w = WSelect"
    and recv: "chan_recv (listChan (input s)) = RecvVal k c"
    and b: "bucket (input s) \<noteq> None"
    and pre: "\<forall>x\<in>set pre. \<not> hard_error x"
    and r: "RecErr r = Some e" "e \<noteq> EOF"
  shows "\<exists>s2.
     exec (WorkerRecv w (pre @ r # post) left dur #
             replicate (Suc (length (fetchKey (input s) (pre @ r # post) left dur k))) (WorkerAct w)) s
       = Some s2 \<and>
     delivered s2 = delivered s @ map (Pair w) (filter (\<lambda>x. length x > 0) (map Record pre)) \<and>
     processMessageFailures (input s2) = processMessageFailures (input s) + 1 \<and>
     processFileFailures (input s2) = processFileFailures (input s) + 1 \<and>
     processFileCount (input s2) = processFileCount (input s) + 1 \<and>
     workers s2 ! w = WSelect"
proof -
  let ?rs = "pre @ r # post"
  let ?acts = "fetchKey (input s) ?rs left dur k"
  from r have hr: "hard_error r" by (simp add: hard_error_def)
  have fe: "fetch_error (input s) ?rs = Some e"
    using b r records_read_prefix(2) [OF pre hr, of post] by (auto simp: fetch_error_def)
  have fr: "fetch_records (input s) ?rs = filter (\<lambda>x. length x > 0) (map Record pre)"
    using b records_read_prefix(1) [OF pre hr, of post] by (auto simp: fetch_records_def)
  obtain s2 where ex: "exec (WorkerRecv w ?rs left dur # replicate (Suc (length ?acts)) (WorkerAct w)) s = Some s2"
    using worker_turn [OF w recv, of ?rs left dur] by blast
  note t = turn_counter [OF w recv ex]
  have "delivered s2 = delivered s @ map (Pair w) (filter (\<lambda>x. length x > 0) (map Record pre))"
    by (simp only: t(2) fetchKey_delivers fr)
  moreover have "processMessageFailures (input s2) = processMessageFailures (input s) + 1"
    using t(1) [of ProcessMessageFailures] by (simp add: fetchKey_added fe)
  moreover have "processFileFailures (input s2) = processFileFailures (input s) + 1"
    using t(1) [of ProcessFileFailures] by (simp add: fetchKey_added fe)
  moreover have "processFileCount (input s2) = processFileCount (input s) + 1"
    using t(1) [of ProcessFileCount] by (simp add: fetchKey_added)
  moreover have "workers s2 ! w = WSelect"
    using w by (simp add: t(4))
  ultimately show ?thesis using ex by blast
qed

theorem fetch_error_counted_once_witness:
  "(0::nat) < length (workers example_state) \<and> workers example_state ! 0 = WSelect \<and>
   bucket (input example_state) \<noteq> None \<and>
   (\<exists>s2. exec (WorkerRecv 0 example_failing_results [] ''0.10'' #
              replicate (Suc (length (fetchKey (input example_state) example_failing_results [] ''0.10'' ''a/k'')))
                (WorkerAct 0)) example_state = Some s2 \<and>
     delivered s2 = [(0, [1, 2])] \<and>
     processMessageFailures (input s2) = 1 \<and>
     processFileFailures (input s2) = 1 \<and>
     workers s2 ! 0 = WSelect)"
proof -
  have w: "(0::nat) < length (workers example_state)" "workers example_state ! 0 = WSelect"
    by (simp_all add: example_state_def)
  have b: "bucket (input example_state) \<noteq> None"
    by (simp add: example_state_def example_input_eq)
  have pre: "\<forall>x\<in>set [\<lparr>Record = [1, 2], RecErr = None\<rparr>]. \<not> hard_error x"
    by (simp add: hard_error_def)
  have z: "processMessageFailures (input example_state) = 0" "processFileFailures (input example_state) = 0"
     "delivered example_state = []"
    by (simp_all add: example_state_def example_input_eq newInput_def)
  from fetch_error_counted_once [OF w example_chan_recv b pre, of "\<lparr>Record = [7], RecErr = Some (GoError ''reset'')\<rparr>" "GoError ''reset''"
      "[\<lparr>Record = [9], RecErr = None\<rparr>]" "[]" "''0.10''"]
  show ?thesis using w b by (auto simp add: example_failing_results_def z simp del: exec.simps replicate_Suc)
qed

text \<open>
  Claim C4. When \<open>GetRemainingData\<close> returns \<open>K > 0\<close> bytes after an object has been read,
  the worker's turn adds exactly \<open>K\<close> to the discarded-bytes counter and logs the warning
  with \<open>K\<close> and the key. The leftover bytes count as no failure and abort nothing: the
  two failure counters grow by one exactly when the reading itself returned an error,
  the records read are all delivered, and the worker is back at its \<open>select\<close>.
\<close>

theorem leftovers_counted_not_failed:
  assumes w: "w < length (workers s)" "workers s ! w = WSelect"
    and recv: "chan_recv (listChan (input s)) = RecvVal k c"
    and K: "length left = K" "K > 0"
  shows "\<exists>s2.
     exec (WorkerRecv w rs left dur #
             replicate (Suc (length (fetchKey (input s) rs left dur k))) (WorkerAct w)) s = Some s2 \<and>
     processFileDiscardedBytes (input s2) = processFileDiscardedBytes (input s) + of_nat K \<and>
     LogError (''Trailing data, possible corruption: '' @ show_nat K @
               '' bytes left in stream at EOF: '' @ k) \<in> set (logged s2) \<and>
     processFileFailures (input s2)
       = processFileFailures (input s) + (if fetch_error (input s) rs = None then 0 else 1) \<and>
     processMessageFailures (input s2)
       = processMessageFailures (input s) + (if fetch_error (input s) rs = None then 0 else 1) \<and>
     delivered s2 = delivered s @ map (Pair w) (fetch_records (input s) rs) \<and>
     workers s2 ! w = WSelect"
proof -
  let ?acts = "fetchKey (input s) rs left dur k"
  obtain s2 where ex: "exec (WorkerRecv w rs left dur # replicate (Suc (length ?acts)) (WorkerAct w)) s = Some s2"
    using worker_turn [OF w recv, of rs left dur] by blast
  note t = turn_counter [OF w recv ex]
  have "processFileDiscardedBytes (input s2) = processFileDiscardedBytes (input s) + of_nat K"
    using t(1) [of ProcessFileDiscardedBytes] K by (simp add: fetchKey_added)
  moreover have "LogError (''Trailing data, possible corruption: '' @ show_nat K @
               '' bytes left in stream at EOF: '' @ k) \<in> set (logged s2)"
    using K by (simp add: t(3) fetchKey_eq)
  moreover have "processFileFailures (input s2)
       = processFileFailures (input s) + (if fetch_error (input s) rs = None then 0 else 1)"
    using t(1) [of ProcessFileFailures] by (simp add: fetchKey_added)
  moreover have "processMessageFailures (input s2)
       = processMessageFailures (input s) + (if fetch_error (input s) rs = None then 0 else 1)"
    using t(1) [of ProcessMessageFailures] by (simp add: fetchKey_added)
  moreover have "delivered s2 = delivered s @ map (Pair w) (fetch_records (input s) rs)"
    by (simp only: t(2) fetchKey_delivers)
  moreover have "workers s2 ! w = WSelect"
    using w by (simp add: t(4))
  ultimately show ?thesis using ex by blast
qed

theorem leftovers_counted_not_failed_witness:
  "(0::nat) < length (workers example_state) \<and> workers example_state ! 0 = WSelect \<and>
   (\<exists>s2. exec (WorkerRecv 0 example_results [4, 5, 6] ''0.10'' #
              replicate (Suc (length (fetchKey (input example_state) example_results [4, 5, 6] ''0.10'' ''a/k'')))
                (WorkerAct 0)) example_state = Some s2 \<and>
     processFileDiscardedBytes (input s2) = 3 \<and>
     LogError ''Trailing data, possible corruption: 3 bytes left in stream at EOF: a/k'' \<in> set (logged s2) \<and>
     processFileFailures (input s2) = 0 \<and>
     processMessageFailures (input s2) = 0 \<and>
     delivered s2 = [(0, [1, 2]), (0, [3])] \<and>
     workers s2 ! 0 = WSelect)"
proof -
  have w: "(0::nat) < length (workers example_state)" "workers example_state ! 0 = WSelect"
    by (simp_all add: example_state_def)
  have z: "processMessageFailures (input example_state) = 0" "processFileFailures (input example_state) = 0"
     "processFileDiscardedBytes (input example_state) = 0" "delivered example_state = []"
    by (simp_all add: example_state_def example_input_eq newInput_def)
  have b: "bucket (input example_state) \<noteq> None"
    by (simp add: example_state_def example_input_eq)
  have fe: "fetch_error (input example_state) example_results = None"
    by (simp add: fetch_error_def read_error_def example_results_def hard_error_def)
  have fr: "fetch_records (input example_state) example_results = [[1, 2], [3]]"
    using b by (auto simp add: fetch_records_def records_read_def example_results_def hard_error_def)
  have sn: "show_nat 3 = ''3''" by (simp add: show_nat.simps)
  from leftovers_counted_not_failed [OF w example_chan_recv, of "[4, 5, 6]" 3 example_results "''0.10''"]
  show ?thesis using w by (auto simp add: z fe fr sn simp del: exec.simps replicate_Suc)
qed

section \<open>The name filter\<close>

lemma slash_at: "(take (length ''/'') (drop i k) = ''/'') = (i < length k \<and> k ! i = CHR ''/'')"
proof (cases "i < length k")
  case True
  then have "drop i k = k ! i # drop (Suc i) k" by (simp add: Cons_nth_drop_Suc)
  then show ?thesis using True by simp
next
  case False
  then show ?thesis by simp
qed

lemma rev_upt_nth: "j < Suc n \<Longrightarrow> rev [0..<Suc n] ! j = n - j"
  by (simp add: rev_nth del: upt_Suc)

lemma LastIndex_none:
  assumes "CHR ''/'' \<notin> set k"
  shows "LastIndex k ''/'' = - 1"
proof -
  have "find (\<lambda>i. take (length ''/'') (drop i k) = ''/'') (rev [0..<Suc (length k)]) = None"
    unfolding find_None_iff slash_at using assms by (auto simp: in_set_conv_nth)
  then show ?thesis by (simp add: LastIndex_def)
qed

lemma LastIndex_some:
  assumes "CHR ''/'' \<in> set k"
  shows "\<exists>i. LastIndex k ''/'' = int i \<and> i < length k \<and> k ! i = CHR ''/'' \<and>
            (\<forall>j. i < j \<longrightarrow> j < length k \<longrightarrow> k ! j \<noteq> CHR ''/'')"
proof -
  let ?P = "\<lambda>i. take (length ''/'') (drop i k) = ''/''"
  let ?xs = "rev [0..<Suc (length k)]"
  from assms obtain m where m: "m < length k" "k ! m = CHR ''/''" by (auto simp: in_set_conv_nth)
  then have "?P m" by (simp only: slash_at)
  moreover have "m \<in> set ?xs" using m by simp
  ultimately have "find ?P ?xs \<noteq> None" unfolding find_None_iff by blast
  then obtain i where f: "find ?P ?xs = Some i" by auto
  then obtain j where j: "j < length ?xs" "?P (?xs ! j)" "i = ?xs ! j" "\<forall>n<j. \<not> ?P (?xs ! n)"
    unfolding find_Some_iff by blast
  have jl: "j < Suc (length k)" using j(1) by (simp del: upt_Suc)
  have ij: "i = length k - j" using jl j(3) by (simp only: rev_upt_nth)
  from j(2,3) have Pi: "i < length k \<and> k ! i = CHR ''/''" by (simp only: slash_at)
  have later: "k ! j' \<noteq> CHR ''/''" if "i < j'" "j' < length k" for j'
  proof
    assume a: "k ! j' = CHR ''/''"
    let ?n = "length k - j'"
    have n: "?n < j" using that ij jl by simp
    have "?n < Suc (length k)" by simp
    then have "?xs ! ?n = length k - ?n" by (rule rev_upt_nth)
    then have "?xs ! ?n = j'" using that by simp
    with j(4) n have "\<not> ?P j'" by metis
    with a that show False by (simp only: slash_at) simp
  qed
  from f Pi later show ?thesis by (auto simp add: LastIndex_def)
qed

lemma basename_segment:
  "CHR ''/'' \<notin> set (basename k) \<and>
   (\<exists>pre. k = pre @ basename k \<and> (pre = [] \<or> last pre = CHR ''/''))"
proof (cases "CHR ''/'' \<in> set k")
  case False
  then have "basename k = k" by (simp add: basename_def LastIndex_none)
  with False show ?thesis by simp
next
  case True
  from LastIndex_some [OF True] obtain i where i: "LastIndex k ''/'' = int i" "i < length k"
    "k ! i = CHR ''/''" "\<forall>j. i < j \<longrightarrow> j < length k \<longrightarrow> k ! j \<noteq> CHR ''/''" by blast
  have b: "basename k = drop (Suc i) k" using i(1) by (simp add: basename_def nat_add_distrib)
  have "CHR ''/'' \<notin> set (drop (Suc i) k)"
  proof
    assume "CHR ''/'' \<in> set (drop (Suc i) k)"
    then obtain m where m: "m < length (drop (Suc i) k)" "drop (Suc i) k ! m = CHR ''/''"
      by (auto simp: in_set_conv_nth)
    then have "k ! (Suc i + m) = CHR ''/''" "Suc i + m < length k" by auto
    with i(4) show False by auto
  qed
  moreover have "k = take (Suc i) k @ drop (Suc i) k" by simp
  moreover have "last (take (Suc i) k) = CHR ''/''"
    using i(2,3) by (simp add: take_Suc_conv_app_nth)
  ultimately show ?thesis unfolding b by blast
qed

lemma example_basename: "basename ''x/y/a.gz'' = ''a.gz''"
  by code_simp

lemma example_basename2: "basename ''b.txt'' = ''b.txt''"
  by code_simp

section \<open>Invariants of a run\<close>

lemma input_perform_chans [simp]:
  "stop (input (perform w a s)) = stop (input s)"
  "listChan (input (perform w a s)) = listChan (input s)"
  "bucket (input (perform w a s)) = bucket (input s)"
  by (cases a; simp)+

lemma run_inv_start:
  assumes "Init env conf i0 = (i, None)" "Run i listing = Some s0"
  shows "run_inv s0"
  using assms
  by (auto simp: Init_ok Run_def run_inv_def make_chan_def split: option.splits)

lemma run_inv_lister:
  assumes "run_inv s" "lister_step s = Some s'"
  shows "run_inv s'"
  using assms
  by (auto simp: run_inv_def lister_step_def chan_send_def close_chan_def
      split: lister_pc.splits list.splits option.splits if_splits prod.splits send_result.splits sum.splits)

lemma set_update_WDone:
  "WDone \<in> set (ws[w := pc]) \<Longrightarrow> pc \<noteq> WDone \<Longrightarrow> WDone \<in> set ws"
  by (metis in_set_conv_nth length_list_update nth_list_update_eq nth_list_update_neq)

lemma run_inv_step:
  assumes "run_inv s" "step l s = Some s'"
  shows "run_inv s'"
proof (cases l)
  case CallStop
  with assms show ?thesis
    by (auto simp: run_inv_def Stop_def close_chan_def split: option.splits if_splits sum.splits)
next
  case ListerStep
  with assms show ?thesis by (simp add: run_inv_lister)
next
  case (WorkerRecv w rs left dur)
  with assms show ?thesis
    by (auto simp: run_inv_def chan_recv_def dest: set_update_WDone
        split: option.splits if_splits list.splits recv_result.splits)
next
  case (WorkerStop w)
  with assms show ?thesis
    by (auto simp: run_inv_def dest: set_update_WDone split: option.splits if_splits)
next
  case (WorkerAct w)
  with assms show ?thesis
    by (auto simp: run_inv_def dest: set_update_WDone
        split: option.splits if_splits worker_pc.splits list.splits)
next
  case (WorkerDrain w)
  with assms show ?thesis
    by (auto simp: run_inv_def chan_recv_def dest: set_update_WDone
        split: option.splits if_splits list.splits recv_result.splits)
qed

lemma run_inv_exec:
  "run_inv s \<Longrightarrow> exec ls s = Some s' \<Longrightarrow> run_inv s'"
  by (induction ls arbitrary: s) (auto split: option.splits dest: run_inv_step)

lemma step_keeps_lister:
  "step l s = Some s' \<Longrightarrow> l \<noteq> ListerStep \<Longrightarrow> lister s' = lister s"
  by (cases l)
     (auto simp: Stop_def split: sum.splits if_splits recv_result.splits worker_pc.splits list.splits)

lemma example_Init: "Init example_env example_conf (newInput ()) = (example_input, None)"
  by (simp add: example_input_def Init_def example_env_def example_conf_def ConfigStruct_def
      initBucket_def initObjectMatch_def)

lemma example_Run: "Run example_input [\<lparr>Key = ''a/k'', ListErr = None\<rparr>] = Some example_run_start"
proof -
  have "replicate (2 :: nat) WSelect = [WSelect, WSelect]" by (simp add: numeral_2_eq_2)
  then show ?thesis
    by (simp add: Run_def example_input_eq example_conf_def ConfigStruct_def example_run_start_def)
qed




section \<open>The counters over a run\<close>

lemma sint_add_fits:
  fixes c d :: "64 word"
  assumes "0 \<le> sint d" "sint c + sint d < 2 ^ 63"
  shows "sint (c + d) = sint c + sint d"
proof -
  have "- (2 ^ 63) \<le> sint c" using sint_ge [of c] by simp
  with assms have "- (2 ^ 63) \<le> sint c + sint d" by linarith
  with assms(2) show ?thesis
    by (simp add: sint_word_ariths signed_take_bit_int_eq_self)
qed

lemma sint_of_nat_slice: "n < 2 ^ 63 \<Longrightarrow> sint (of_nat n :: 64 word) = int n"
proof -
  assume n: "n < 2 ^ 63"
  then have "int n < 2 ^ 63" by (metis of_nat_less_iff of_nat_numeral of_nat_power)
  then show ?thesis
    by (simp add: signed_of_nat signed_take_bit_int_eq_self)
qed

lemma well_counted_append [simp]: "well_counted (xs @ ys) = (well_counted xs \<and> well_counted ys)"
  by (simp add: well_counted_def)

lemma file_free_append [simp]: "file_free (xs @ ys) = (file_free xs \<and> file_free ys)"
  by (simp add: file_free_def)

lemma need_append_free: "file_free xs \<Longrightarrow> need (xs @ ys) = need ys"
  by (induction xs) (auto simp: file_free_def split: action.splits)

lemma adds_append [simp]: "adds c (xs @ ys) = adds c xs @ adds c ys"
  by (induction xs) (auto split: action.splits)

lemma LoadInt64_one [simp]: "LoadInt64 1 = 1"
  by (simp add: LoadInt64_def)

lemma LoadInt64_slice: "go_slice xs \<Longrightarrow> LoadInt64 (of_nat (length xs)) = int (length xs)"
  by (simp add: LoadInt64_def go_slice_def sint_of_nat_slice)

lemma readLoop_well:
  "list_all (\<lambda>r. go_slice (Record r)) rs \<Longrightarrow>
     well_counted (fst (readLoop k rs)) \<and> file_free (fst (readLoop k rs))"
proof (induction rs)
  case Nil
  then show ?case by (simp add: well_counted_def file_free_def)
next
  case (Cons r rs)
  show ?case
  proof (cases "hard_error r")
    case True
    then show ?thesis by (simp add: readLoop_hard well_counted_def file_free_def)
  next
    case False
    with Cons show ?thesis
      by (simp add: readLoop_soft) (simp add: well_counted_def file_free_def LoadInt64_slice)
  qed
qed

lemma readS3File_well:
  "list_all (\<lambda>r. go_slice (Record r)) rs \<Longrightarrow>
     well_counted (fst (readS3File i rs k)) \<and> file_free (fst (readS3File i rs k))"
proof (cases "bucket i")
  case None
  then show ?thesis by (simp add: readS3File_nil well_counted_def file_free_def)
next
  case (Some b)
  assume "list_all (\<lambda>r. go_slice (Record r)) rs"
  from readLoop_well [OF this, of k] Some show ?thesis
    by (simp add: readS3File_bucket) (simp add: well_counted_def file_free_def)
qed

lemma fetchKey_well:
  assumes "go_slice left" "list_all (\<lambda>r. go_slice (Record r)) rs"
  shows "well_counted (fetchKey i rs left dur k)"
  using readS3File_well [OF assms(2), of i k] assms(1)
  by (simp add: fetchKey_eq split: option.splits)
     (simp add: well_counted_def LoadInt64_slice)

lemma readS3File_free: "file_free (fst (readS3File i rs k))"
proof -
  have "file_free (fst (readLoop k rs))"
  proof (induction rs)
    case Nil
    then show ?case by (simp add: file_free_def)
  next
    case (Cons r rs)
    then show ?case
      by (cases "hard_error r") (simp_all add: readLoop_hard readLoop_soft, simp_all add: file_free_def)
  qed
  then show ?thesis
    by (cases "bucket i") (simp_all add: readS3File_nil readS3File_bucket, simp_all add: file_free_def)
qed

lemma fetchKey_need: "need (fetchKey i rs left dur k) = 0"
  by (simp add: fetchKey_eq need_append_free [OF readS3File_free] split: option.splits)

lemma readLoop_adds:
  "adds c (fst (readLoop k rs)) =
     (case c of
        ProcessMessageCount \<Rightarrow> map (\<lambda>r. 1) (records_read rs)
      | ProcessMessageBytes \<Rightarrow> map (\<lambda>r. of_nat (length r)) (records_read rs)
      | ProcessMessageFailures \<Rightarrow> (if read_error rs = None then [] else [1])
      | _ \<Rightarrow> [])"
proof (induction rs)
  case Nil then show ?case by (simp add: records_read_def read_error_def split: counter.splits)
next
  case (Cons r rs)
  show ?case
  proof (cases "hard_error r")
    case True then show ?thesis
      by (auto simp add: readLoop_hard records_read_def read_error_def hard_error_def
          split: counter.splits option.splits)
  next
    case False then show ?thesis using Cons.IH
      by (auto simp add: readLoop_soft records_read_def read_error_def split: counter.splits)
  qed
qed

lemma readS3File_adds:
  "adds c (fst (readS3File i rs k)) =
     (case c of
        ProcessMessageCount \<Rightarrow> map (\<lambda>r. 1) (fetch_records i rs)
      | ProcessMessageBytes \<Rightarrow> map (\<lambda>r. of_nat (length r)) (fetch_records i rs)
      | ProcessMessageFailures \<Rightarrow> (if fetch_error i rs = None then [] else [1])
      | _ \<Rightarrow> [])"
  by (cases "bucket i")
     (simp_all add: readS3File_nil readS3File_bucket fetch_records_def fetch_error_def readLoop_adds
        split: counter.splits)

lemma fetchKey_adds:
  "adds c (fetchKey i rs left dur k) =
     (case c of
        ProcessFileCount \<Rightarrow> [1]
      | ProcessFileFailures \<Rightarrow> (if fetch_error i rs = None then [] else [1])
      | ProcessFileDiscardedBytes \<Rightarrow> (if left = [] then [] else [of_nat (length left)])
      | ProcessMessageCount \<Rightarrow> map (\<lambda>r. 1) (fetch_records i rs)
      | ProcessMessageBytes \<Rightarrow> map (\<lambda>r. of_nat (length r)) (fetch_records i rs)
      | ProcessMessageFailures \<Rightarrow> (if fetch_error i rs = None then [] else [1]))"
  by (cases c) (auto simp add: fetchKey_eq readS3File_adds split: option.splits)

lemma sum_list_map_update:
  "w < length ws \<Longrightarrow>
     sum_list (map f (ws[w := pc])) + f (ws ! w) = sum_list (map f ws) + (f pc :: nat)"
proof (induction ws arbitrary: w)
  case Nil
  then show ?case by simp
next
  case (Cons x ws)
  then show ?case by (cases w) auto
qed

lemma list_all_update:
  "list_all P ws \<Longrightarrow> P pc \<Longrightarrow> list_all P (ws[w := pc])"
  unfolding list_all_iff using set_update_subset_insert [of ws w pc] by auto

lemma count_inv_update:
  assumes inv: "count_inv s" and w: "w < length (workers s)"
    and wc: "well_counted (pending pc)"
    and le: "LoadInt64 F' + int (need (pending pc)) + int (sum_list (map (\<lambda>pc. need (pending pc)) (workers s)))
             \<le> LoadInt64 C' + int (need (pending (workers s ! w)))"
    and s': "workers s' = (workers s)[w := pc]" "processFileFailures (input s') = F'"
       "processFileCount (input s') = C'"
  shows "count_inv s'"
proof -
  let ?f = "\<lambda>pc. need (pending pc)"
  have "sum_list (map ?f ((workers s)[w := pc])) + ?f (workers s ! w)
      = sum_list (map ?f (workers s)) + ?f pc"
    using w by (rule sum_list_map_update)
  then have "int (sum_list (map ?f ((workers s)[w := pc]))) + int (?f (workers s ! w))
      = int (sum_list (map ?f (workers s))) + int (?f pc)"
    by (metis of_nat_add)
  with le have "LoadInt64 F' + int (sum_list (map ?f ((workers s)[w := pc]))) \<le> LoadInt64 C'"
    by linarith
  moreover have "list_all (\<lambda>pc. well_counted (pending pc)) ((workers s)[w := pc])"
    using inv wc by (simp add: count_inv_def list_all_update)
  ultimately show ?thesis by (simp add: count_inv_def s')
qed

lemma count_inv_same:
  assumes "count_inv s" "workers s' = workers s"
    "processFileFailures (input s') = processFileFailures (input s)"
    "processFileCount (input s') = processFileCount (input s)"
  shows "count_inv s'"
  using assms by (simp add: count_inv_def)

lemma Init_keeps_counters:
  assumes "Init env conf i0 = (i, None)"
  shows "load_counter c i = load_counter c i0"
proof -
  from assms obtain b re where "i = i0\<lparr>config := Some (conf\<lparr>S3BucketPrefix := CleanBucketPrefix env (S3BucketPrefix conf)\<rparr>),
               schema := fst (LoadSchema env (SchemaFile conf)),
               bucket := b, objectMatch := re,
               stop := make_chan 0, listChan := make_chan 1000\<rparr>"
    unfolding Init_ok by blast
  then show ?thesis by (cases c) simp_all
qed

lemma Run_start:
  assumes "Run i listing = Some s0"
  shows "input s0 = i \<and> lister s0 = LStart listing \<and> (\<forall>pc \<in> set (workers s0). pc = WSelect) \<and>
         logged s0 = [] \<and> delivered s0 = []"
  using assms by (auto simp: Run_def split: option.splits)

lemma count_inv_start:
  assumes init: "Init env conf (newInput sch) = (i, None)" and run: "Run i listing = Some s0"
  shows "count_inv s0"
proof -
  note r = Run_start [OF run]
  have f: "processFileFailures (input s0) = 0"
    using Init_keeps_counters [OF init, of ProcessFileFailures] r by (simp add: newInput_def)
  have c: "processFileCount (input s0) = 0"
    using Init_keeps_counters [OF init, of ProcessFileCount] r by (simp add: newInput_def)
  have p: "\<forall>pc \<in> set (workers s0). pending pc = []"
    using r by (auto simp add: pending_def)
  then have "map (\<lambda>pc. need (pending pc)) (workers s0) = map (\<lambda>pc. 0) (workers s0)"
    by simp
  then have "sum_list (map (\<lambda>pc. need (pending pc)) (workers s0)) = 0"
    by (simp only: sum_list_0)
  moreover have "list_all (\<lambda>pc. well_counted (pending pc)) (workers s0)"
    using p by (simp add: list_all_iff well_counted_def)
  ultimately show ?thesis by (simp add: count_inv_def f c LoadInt64_def)
qed

lemma well_counted_pending:
  "count_inv s \<Longrightarrow> w < length (workers s) \<Longrightarrow> well_counted (pending (workers s ! w))"
  by (simp add: count_inv_def list_all_length)

lemma LoadInt64_add_fits:
  assumes "0 \<le> LoadInt64 d" "LoadInt64 c + LoadInt64 d < 2 ^ 63"
  shows "LoadInt64 (c + d) = LoadInt64 c + LoadInt64 d"
  using assms unfolding LoadInt64_def by (rule sint_add_fits)

lemma pending_simps [simp]:
  "pending WSelect = []" "pending (WBusy acts) = acts" "pending WDrain = []" "pending WDone = []"
  by (simp_all add: pending_def)

lemma count_inv_le:
  "count_inv s \<Longrightarrow>
     LoadInt64 (processFileFailures (input s))
        + int (sum_list (map (\<lambda>pc. need (pending pc)) (workers s)))
        \<le> LoadInt64 (processFileCount (input s))"
  by (simp add: count_inv_def)

lemma count_inv_idle:
  assumes inv: "count_inv s" and w: "w < length (workers s)"
    and old: "pending (workers s ! w) = []"
    and wc: "well_counted (pending pc)" and nd: "need (pending pc) = 0"
    and s': "workers s' = (workers s)[w := pc]"
      "processFileFailures (input s') = processFileFailures (input s)"
      "processFileCount (input s') = processFileCount (input s)"
  shows "count_inv s'"
  using count_inv_le [OF inv]
  by (intro count_inv_update [OF inv w wc _ s'(1) refl refl]) (simp add: old nd s')

lemma count_inv_act:
  assumes inv: "count_inv s" and w: "w < length (workers s)"
    and b: "workers s ! w = WBusy (a # acts)"
    and fits: "add_fits a (input s)"
  shows "count_inv ((perform w a s)\<lparr>workers := (workers s)[w := WBusy acts]\<rparr>)"
proof -
  let ?s' = "(perform w a s)\<lparr>workers := (workers s)[w := WBusy acts]\<rparr>"
  let ?S = "int (sum_list (map (\<lambda>pc. need (pending pc)) (workers s)))"
  from well_counted_pending [OF inv w] b have wc: "well_counted (a # acts)" by simp
  then have wc': "well_counted (pending (WBusy acts))" by (simp add: well_counted_def)
  note le = count_inv_le [OF inv]
  have ws: "workers ?s' = (workers s)[w := WBusy acts]" by simp
  show ?thesis
  proof (cases a)
    case (AddInt64 c d)
    from wc AddInt64 have d0: "0 \<le> LoadInt64 d" and unit: "c = ProcessFileCount \<or> c = ProcessFileFailures \<longrightarrow> d = 1"
      by (simp_all add: well_counted_def)
    from fits AddInt64 have f: "LoadInt64 (load_counter c (input s)) + LoadInt64 d < 2 ^ 63"
      by (simp add: add_fits_def)
    consider (cnt) "c = ProcessFileCount" | (fail) "c = ProcessFileFailures"
      | (other) "c \<noteq> ProcessFileCount" "c \<noteq> ProcessFileFailures" by blast
    then show ?thesis
    proof cases
      case cnt
      with unit have d: "d = 1" by simp
      have C: "LoadInt64 (processFileCount (input s) + 1) = LoadInt64 (processFileCount (input s)) + 1"
        using LoadInt64_add_fits [OF d0 f] cnt d by simp
      show ?thesis
        by (rule count_inv_update [OF inv w wc' _ ws refl refl])
           (use le in \<open>simp add: b AddInt64 cnt d C\<close>)
    next
      case fail
      with unit have d: "d = 1" by simp
      have F: "LoadInt64 (processFileFailures (input s) + 1) = LoadInt64 (processFileFailures (input s)) + 1"
        using LoadInt64_add_fits [OF d0 f] fail d by simp
      show ?thesis
        by (rule count_inv_update [OF inv w wc' _ ws refl refl])
           (use le in \<open>simp add: b AddInt64 fail d F\<close>)
    next
      case other
      have F: "processFileFailures (add_counter c d (input s)) = processFileFailures (input s)"
        and C: "processFileCount (add_counter c d (input s)) = processFileCount (input s)"
        using other by (cases c; simp)+
      show ?thesis
        by (rule count_inv_update [OF inv w wc' _ ws refl refl])
           (use le other in \<open>simp add: b AddInt64 C F\<close>)
    qed
  next
    case (LogMessage m)
    show ?thesis
      by (rule count_inv_update [OF inv w wc' _ ws refl refl]) (use le LogMessage in \<open>simp add: b\<close>)
  next
    case (LogError m)
    show ?thesis
      by (rule count_inv_update [OF inv w wc' _ ws refl refl]) (use le LogError in \<open>simp add: b\<close>)
  next
    case (DeliverRecord r)
    show ?thesis
      by (rule count_inv_update [OF inv w wc' _ ws refl refl]) (use le DeliverRecord in \<open>simp add: b\<close>)
  qed
qed

lemma count_inv_step:
  assumes inv: "count_inv s" and st: "step l s = Some s'" and fits: "step_fits l s"
  shows "count_inv s'"
proof (cases l)
  case CallStop
  with st show ?thesis
    by (auto simp: Stop_def split: sum.splits intro!: count_inv_same [OF inv])
next
  case ListerStep
  with st show ?thesis
    by (auto simp: lister_step_def
        split: lister_pc.splits list.splits if_splits prod.splits send_result.splits sum.splits
        intro!: count_inv_same [OF inv])
next
  case (WorkerRecv w rs left dur)
  with st have w: "w < length (workers s)" and sel: "workers s ! w = WSelect"
    by (auto split: if_splits)
  from fits WorkerRecv have wf: "go_slice left" "list_all (\<lambda>r. go_slice (Record r)) rs"
    by (simp_all add: step_fits_def)
  show ?thesis
  proof (cases "chan_recv (listChan (input s))")
    case (RecvVal k c)
    with st WorkerRecv w sel
    have s': "s' = s\<lparr>input := (input s)\<lparr>listChan := c\<rparr>,
                     workers := (workers s)[w := WBusy (fetchKey (input s) rs left dur k)]\<rparr>"
      by simp
    show ?thesis
      by (rule count_inv_idle [OF inv w, where pc = "WBusy (fetchKey (input s) rs left dur k)"])
         (simp_all add: sel s' fetchKey_well [OF wf] fetchKey_need)
  next
    case RecvClosed
    with st WorkerRecv w sel have s': "s' = s\<lparr>workers := (workers s)[w := WDone]\<rparr>" by simp
    show ?thesis
      by (rule count_inv_idle [OF inv w, where pc = WDone]) (simp_all add: sel s' well_counted_def)
  next
    case RecvBlocks
    with st WorkerRecv w sel show ?thesis by simp
  qed
next
  case (WorkerStop w)
  with st have w: "w < length (workers s)" and sel: "workers s ! w = WSelect"
    and s': "s' = s\<lparr>workers := (workers s)[w := WDrain]\<rparr>"
    by (auto split: if_splits)
  show ?thesis
    by (rule count_inv_idle [OF inv w, where pc = WDrain]) (simp_all add: sel s' well_counted_def)
next
  case (WorkerAct w)
  with st have w: "w < length (workers s)" by (auto split: if_splits)
  from st WorkerAct w obtain acts where b: "workers s ! w = WBusy acts"
    by (auto split: worker_pc.splits)
  show ?thesis
  proof (cases acts)
    case Nil
    with st WorkerAct w b have s': "s' = s\<lparr>workers := (workers s)[w := WSelect]\<rparr>" by simp
    show ?thesis
      by (rule count_inv_idle [OF inv w, where pc = WSelect])
         (simp_all add: b Nil s' well_counted_def)
  next
    case (Cons a acts')
    with st WorkerAct w b
    have s': "s' = (perform w a s)\<lparr>workers := (workers s)[w := WBusy acts']\<rparr>" by simp
    from fits WorkerAct w b Cons have "add_fits a (input s)" by (simp add: step_fits_def)
    with inv w b Cons show ?thesis unfolding s' by (intro count_inv_act) simp_all
  qed
next
  case (WorkerDrain w)
  with st have w: "w < length (workers s)" and dr: "workers s ! w = WDrain"
    by (auto split: if_splits)
  show ?thesis
  proof (cases "chan_recv (listChan (input s))")
    case (RecvVal k c)
    with st WorkerDrain w dr have s': "s' = s\<lparr>input := (input s)\<lparr>listChan := c\<rparr>\<rparr>" by simp
    show ?thesis by (rule count_inv_same [OF inv]) (simp_all add: s')
  next
    case RecvClosed
    with st WorkerDrain w dr have s': "s' = s\<lparr>workers := (workers s)[w := WDone]\<rparr>" by simp
    show ?thesis
      by (rule count_inv_idle [OF inv w, where pc = WDone]) (simp_all add: dr s' well_counted_def)
  next
    case RecvBlocks
    with st WorkerDrain w dr show ?thesis by simp
  qed
qed

lemma step_counters:
  assumes st: "step l s = Some s'"
  shows "load_counter c (input s') = load_counter c (input s) \<or>
         (\<exists>w d acts. l = WorkerAct w \<and> w < length (workers s) \<and>
            workers s ! w = WBusy (AddInt64 c d # acts) \<and>
            load_counter c (input s') = load_counter c (input s) + d)"
proof (cases l)
  case CallStop
  with st show ?thesis by (auto simp: Stop_def split: sum.splits)
next
  case ListerStep
  with st show ?thesis
    by (auto simp: lister_step_def
        split: lister_pc.splits list.splits if_splits prod.splits send_result.splits sum.splits)
next
  case (WorkerRecv w rs left dur)
  with st show ?thesis by (auto split: if_splits recv_result.splits)
next
  case (WorkerStop w)
  with st show ?thesis by (auto split: if_splits)
next
  case (WorkerAct w)
  with st have w: "w < length (workers s)" by (auto split: if_splits)
  from st WorkerAct w obtain acts where b: "workers s ! w = WBusy acts"
    by (auto split: worker_pc.splits)
  show ?thesis
  proof (cases acts)
    case Nil
    with st WorkerAct w b show ?thesis by auto
  next
    case (Cons a acts')
    with st WorkerAct w b
    have s': "s' = (perform w a s)\<lparr>workers := (workers s)[w := WBusy acts']\<rparr>" by simp
    show ?thesis
    proof (cases a)
      case (AddInt64 c' d)
      show ?thesis
      proof (cases "c' = c")
        case True
        with AddInt64 WorkerAct w b Cons s' show ?thesis by (simp add: load_add_counter)
      next
        case False
        with AddInt64 s' show ?thesis by (simp add: load_add_counter)
      qed
    qed (simp_all add: s')
  qed
next
  case (WorkerDrain w)
  with st show ?thesis by (auto split: if_splits recv_result.splits)
qed

lemma mono_step:
  assumes inv: "count_inv s" and st: "step l s = Some s'" and fits: "step_fits l s"
  shows "LoadInt64 (load_counter c (input s)) \<le> LoadInt64 (load_counter c (input s'))"
proof -
  from step_counters [OF st, of c] show ?thesis
  proof
    assume "load_counter c (input s') = load_counter c (input s)"
    then show ?thesis by simp
  next
    assume "\<exists>w d acts. l = WorkerAct w \<and> w < length (workers s) \<and>
            workers s ! w = WBusy (AddInt64 c d # acts) \<and>
            load_counter c (input s') = load_counter c (input s) + d"
    then obtain w d acts where l: "l = WorkerAct w" and w: "w < length (workers s)"
      and b: "workers s ! w = WBusy (AddInt64 c d # acts)"
      and eq: "load_counter c (input s') = load_counter c (input s) + d" by blast
    from well_counted_pending [OF inv w] b have d0: "0 \<le> LoadInt64 d"
      by (simp add: well_counted_def)
    from fits l w b have "LoadInt64 (load_counter c (input s)) + LoadInt64 d < 2 ^ 63"
      by (simp add: step_fits_def add_fits_def)
    from LoadInt64_add_fits [OF d0 this] d0 eq show ?thesis by simp
  qed
qed

lemma run_fits_append:
  "exec ls1 s = Some s1 \<Longrightarrow> run_fits (ls1 @ ls2) s = (run_fits ls1 s \<and> run_fits ls2 s1)"
  by (induction ls1 arbitrary: s) (auto split: option.splits)

lemma count_inv_exec:
  "count_inv s \<Longrightarrow> exec ls s = Some s' \<Longrightarrow> run_fits ls s \<Longrightarrow>
     count_inv s' \<and> (\<forall>c. LoadInt64 (load_counter c (input s)) \<le> LoadInt64 (load_counter c (input s')))"
proof (induction ls arbitrary: s)
  case Nil
  then show ?case by simp
next
  case (Cons l ls)
  from Cons.prems obtain t where t: "step l s = Some t" "exec ls t = Some s'"
    by (auto split: option.splits)
  with Cons.prems have f: "step_fits l s" "run_fits ls t" by simp_all
  have it: "count_inv t" using Cons.prems(1) t(1) f(1) by (rule count_inv_step)
  from Cons.IH [OF it t(2) f(2)] mono_step [OF Cons.prems(1) t(1) f(1)]
  show ?case by (meson order_trans)
qed

lemma sum_list_map_update_word:
  "w < length ws \<Longrightarrow>
     sum_list (map f (ws[w := pc])) + f (ws ! w) = sum_list (map f ws) + (f pc :: 64 word)"
proof (induction ws arbitrary: w)
  case Nil
  then show ?case by simp
next
  case (Cons x ws)
  then show ?case by (cases w) (auto simp: algebra_simps)
qed

lemma outstanding_update:
  assumes "w < length (workers s)" "workers s' = (workers s)[w := pc]"
  shows "outstanding c s' + added c (pending (workers s ! w)) = outstanding c s + added c (pending pc)"
  using sum_list_map_update_word [OF assms(1), of "\<lambda>pc. added c (pending pc)" pc]
  by (simp add: outstanding_def assms(2))

lemma conserved_step:
  assumes st: "step l s = Some s'"
  shows "load_counter c (input s') + outstanding c s'
       = load_counter c (input s) + outstanding c s + sum_list (map (added c) (turn_of l s))"
proof (cases l)
  case CallStop
  with st show ?thesis
    by (auto simp: Stop_def turn_of_def outstanding_def split: sum.splits)
next
  case ListerStep
  with st show ?thesis
    by (auto simp: lister_step_def turn_of_def outstanding_def
        split: lister_pc.splits list.splits if_splits prod.splits send_result.splits sum.splits)
next
  case (WorkerRecv w rs left dur)
  with st have w: "w < length (workers s)" and sel: "workers s ! w = WSelect"
    by (auto split: if_splits)
  show ?thesis
  proof (cases "chan_recv (listChan (input s))")
    case (RecvVal k c')
    with st WorkerRecv w sel
    have s': "s' = s\<lparr>input := (input s)\<lparr>listChan := c'\<rparr>,
                     workers := (workers s)[w := WBusy (fetchKey (input s) rs left dur k)]\<rparr>"
      by simp
    from outstanding_update [OF w, of s' "WBusy (fetchKey (input s) rs left dur k)" c]
    show ?thesis by (simp add: s' sel turn_of_def WorkerRecv RecvVal)
  next
    case RecvClosed
    with st WorkerRecv w sel have s': "s' = s\<lparr>workers := (workers s)[w := WDone]\<rparr>" by simp
    from outstanding_update [OF w, of s' WDone c]
    show ?thesis by (simp add: s' sel turn_of_def WorkerRecv RecvClosed)
  next
    case RecvBlocks
    with st WorkerRecv w sel show ?thesis by simp
  qed
next
  case (WorkerStop w)
  with st have w: "w < length (workers s)" and sel: "workers s ! w = WSelect"
    and s': "s' = s\<lparr>workers := (workers s)[w := WDrain]\<rparr>"
    by (auto split: if_splits)
  from outstanding_update [OF w, of s' WDrain c]
  show ?thesis by (simp add: s' sel turn_of_def WorkerStop)
next
  case (WorkerAct w)
  with st have w: "w < length (workers s)" by (auto split: if_splits)
  from st WorkerAct w obtain acts where b: "workers s ! w = WBusy acts"
    by (auto split: worker_pc.splits)
  show ?thesis
  proof (cases acts)
    case Nil
    with st WorkerAct w b have s': "s' = s\<lparr>workers := (workers s)[w := WSelect]\<rparr>" by simp
    from outstanding_update [OF w, of s' WSelect c]
    show ?thesis by (simp add: s' b Nil turn_of_def WorkerAct)
  next
    case (Cons a acts')
    with st WorkerAct w b
    have s': "s' = (perform w a s)\<lparr>workers := (workers s)[w := WBusy acts']\<rparr>" by simp
    define X where "X = added c (a # acts')"
    define Y where "Y = added c acts'"
    have "outstanding c s' + X = outstanding c s + Y"
      using outstanding_update [OF w, of s' "WBusy acts'" c] by (simp add: s' b Cons X_def Y_def)
    then have o: "outstanding c s' = outstanding c s + Y - X" by (simp add: eq_diff_eq)
    have "load_counter c (input s') + Y = load_counter c (input s) + X"
      unfolding X_def Y_def by (cases a) (simp_all add: s' load_add_counter)
    then have l: "load_counter c (input s') = load_counter c (input s) + X - Y"
      by (simp add: eq_diff_eq)
    have "load_counter c (input s') + outstanding c s' = load_counter c (input s) + outstanding c s"
      unfolding o l by simp
    then show ?thesis by (simp add: turn_of_def WorkerAct)
  qed
next
  case (WorkerDrain w)
  with st have w: "w < length (workers s)" and dr: "workers s ! w = WDrain"
    by (auto split: if_splits)
  show ?thesis
  proof (cases "chan_recv (listChan (input s))")
    case (RecvVal k c')
    with st WorkerDrain w dr have s': "s' = s\<lparr>input := (input s)\<lparr>listChan := c'\<rparr>\<rparr>" by simp
    show ?thesis by (simp add: s' turn_of_def WorkerDrain outstanding_def)
  next
    case RecvClosed
    with st WorkerDrain w dr have s': "s' = s\<lparr>workers := (workers s)[w := WDone]\<rparr>" by simp
    from outstanding_update [OF w, of s' WDone c]
    show ?thesis by (simp add: s' dr turn_of_def WorkerDrain)
  next
    case RecvBlocks
    with st WorkerDrain w dr show ?thesis by simp
  qed
qed

lemma conserved_exec:
  "exec ls s = Some s' \<Longrightarrow>
     load_counter c (input s') + outstanding c s'
       = load_counter c (input s) + outstanding c s + sum_list (map (added c) (turns ls s))"
proof (induction ls arbitrary: s)
  case Nil
  then show ?case by simp
next
  case (Cons l ls)
  from Cons.prems obtain t where t: "step l s = Some t" "exec ls t = Some s'"
    by (auto split: option.splits)
  from Cons.IH [OF t(2)] conserved_step [OF t(1), of c] t(1)
  show ?case by (simp add: algebra_simps)
qed

lemma outstanding_start:
  assumes "Run i listing = Some s0"
  shows "outstanding c s0 = 0"
proof -
  from Run_start [OF assms] have "\<forall>pc \<in> set (workers s0). pending pc = []" by auto
  then have "map (\<lambda>pc. added c (pending pc)) (workers s0) = map (\<lambda>pc. 0) (workers s0)" by simp
  then show ?thesis by (simp only: outstanding_def sum_list_0)
qed

lemma exec_append:
  "exec ls1 s = Some s1 \<Longrightarrow> exec (ls1 @ ls2) s = exec ls2 s1"
  by (induction ls1 arbitrary: s) (auto split: option.splits)

lemma example_queued_exec:
  "exec [ListerStep, ListerStep, ListerStep, ListerStep] example_run_start = Some example_queued"
  by (simp add: example_queued_def example_run_start_def lister_step_def example_input_eq
      chan_is_closed_def make_chan_def listEntry_def newInput_def chan_send_def)

lemma example_fetchKey:
  "fetchKey example_input example_results [] ''0.10'' ''a/k'' = example_turn"
  by (simp add: fetchKey_def readS3File_def readLoop.simps example_input_eq example_results_def
      example_turn_def)

lemma example_recv:
  "step (WorkerRecv 0 example_results [] ''0.10'') example_queued
     = Some (example_queued
               \<lparr>input := example_input\<lparr>listChan := Some \<lparr>ch_closed = False, ch_buf = [], ch_cap = 1000\<rparr>\<rparr>,
                workers := [WBusy example_turn, WSelect]\<rparr>)"
proof -
  have b: "bucket (example_input\<lparr>listChan := c\<rparr>) = bucket example_input" for c by simp
  have "fetchKey (example_input\<lparr>listChan := c\<rparr>) example_results [] ''0.10'' ''a/k'' = example_turn" for c
    using example_fetchKey by (simp add: fetchKey_def readS3File_def)
  then show ?thesis
    by (simp add: example_queued_def example_run_start_def chan_recv_def)
qed

lemma example_counting_exec:
  "exec [WorkerRecv 0 example_results [] ''0.10'', WorkerAct 0, WorkerAct 0] example_queued
     = Some example_counting"
  by (simp add: example_recv del: step.simps(3))
     (simp add: example_queued_def example_run_start_def example_turn_def example_counting_def
        example_input_eq newInput_def)

lemma step_fits_lister: "step_fits ListerStep s"
  by (simp add: step_fits_def)

lemma example_lister_fits:
  "run_fits ([ListerStep, ListerStep, ListerStep, ListerStep] @ ls) example_run_start
     = run_fits ls example_queued"
proof -
  have "run_fits [ListerStep, ListerStep, ListerStep, ListerStep] s" for s :: "(unit, unit, unit) run_state"
    by (simp add: step_fits_lister split: option.splits)
  then show ?thesis by (simp only: run_fits_append [OF example_queued_exec] simp_thms)
qed

lemma example_label_wf: "label_wf (WorkerRecv 0 example_results [] ''0.10'')"
  by (simp add: go_slice_def example_results_def)

lemma example_worker_fits:
  "run_fits [WorkerRecv 0 example_results [] ''0.10'', WorkerAct 0, WorkerAct 0] example_queued"
  by (simp add: example_recv example_label_wf step_fits_def del: step.simps(3) label_wf.simps)
     (simp add: example_queued_def example_run_start_def example_turn_def add_fits_def
        step_fits_def LoadInt64_def example_input_eq newInput_def)

text \<open>
  Claim C7. Take any run of a plugin that \<open>Init\<close> has initialised from new, in which no
  addition overflows \<open>int64\<close> (and the slices are slices of Go), and any two of its states,
  one after the other. Then every one of the six counters is at least zero in the first
  and at most as large in the first as in the second; the file-failure counter is at
  most the file-processed counter; each counter, together with what the workers have
  still to add in their current turns, is the sum over the turns started of what the
  turn adds to it; and a turn adds to the counters exactly once each: 1 to the files
  processed, 1 to the file failures and 1 to the record failures exactly when the
  reading failed, the number of leftover bytes (if any) to the discarded bytes, and 1
  and its length for each record delivered.
\<close>

theorem counters_monotone_counted_once:
  assumes init: "Init env conf (newInput sch) = (i, None)" and run: "Run i listing = Some s0"
    and e1: "exec ls1 s0 = Some s1" and e2: "exec ls2 s1 = Some s2"
    and fits: "run_fits (ls1 @ ls2) s0"
  shows "(\<forall>c. 0 \<le> LoadInt64 (load_counter c (input s1)) \<and>
              LoadInt64 (load_counter c (input s1)) \<le> LoadInt64 (load_counter c (input s2))) \<and>
         LoadInt64 (processFileFailures (input s2)) \<le> LoadInt64 (processFileCount (input s2)) \<and>
         (\<forall>c. load_counter c (input s2) + outstanding c s2
                = sum_list (map (added c) (turns (ls1 @ ls2) s0))) \<and>
         (\<forall>c rs leftovers duration s3Key.
            adds c (fetchKey (input s2) rs leftovers duration s3Key) =
              (case c of
                 ProcessFileCount \<Rightarrow> [1]
               | ProcessFileFailures \<Rightarrow> (if fetch_error (input s2) rs = None then [] else [1])
               | ProcessFileDiscardedBytes \<Rightarrow>
                   (if leftovers = [] then [] else [of_nat (length leftovers)])
               | ProcessMessageCount \<Rightarrow> map (\<lambda>r. 1) (fetch_records (input s2) rs)
               | ProcessMessageBytes \<Rightarrow>
                   map (\<lambda>r. of_nat (length r)) (fetch_records (input s2) rs)
               | ProcessMessageFailures \<Rightarrow>
                   (if fetch_error (input s2) rs = None then [] else [1])))"
proof -
  have z: "load_counter c (input s0) = 0" for c
    using Init_keeps_counters [OF init, of c] Run_start [OF run] by (cases c) (simp_all add: newInput_def)
  have i0: "count_inv s0" using init run by (rule count_inv_start)
  from fits e1 have f: "run_fits ls1 s0" "run_fits ls2 s1" by (simp_all add: run_fits_append)
  note a = count_inv_exec [OF i0 e1 f(1)]
  note b = count_inv_exec [OF a [THEN conjunct1] e2 f(2)]
  have m: "\<forall>c. 0 \<le> LoadInt64 (load_counter c (input s1)) \<and>
              LoadInt64 (load_counter c (input s1)) \<le> LoadInt64 (load_counter c (input s2))"
    using a b by (simp add: z LoadInt64_def)
  have "0 \<le> int (sum_list (map (\<lambda>pc. need (pending pc)) (workers s2)))" by simp
  with count_inv_le [OF b [THEN conjunct1]]
  have fc: "LoadInt64 (processFileFailures (input s2)) \<le> LoadInt64 (processFileCount (input s2))"
    by linarith
  have "exec (ls1 @ ls2) s0 = Some s2" using e1 e2 by (simp add: exec_append)
  from conserved_exec [OF this]
  have cons: "\<forall>c. load_counter c (input s2) + outstanding c s2
                = sum_list (map (added c) (turns (ls1 @ ls2) s0))"
    by (simp add: z outstanding_start [OF run])
  from m fc cons show ?thesis by (simp add: fetchKey_adds)
qed

theorem counters_monotone_counted_once_witness:
  "Init example_env example_conf (newInput ()) = (example_input, None) \<and>
   Run example_input [\<lparr>Key = ''a/k'', ListErr = None\<rparr>] = Some example_run_start \<and>
   exec [ListerStep, ListerStep, ListerStep, ListerStep] example_run_start = Some example_queued \<and>
   exec [WorkerRecv 0 example_results [] ''0.10'', WorkerAct 0, WorkerAct 0] example_queued
     = Some example_counting \<and>
   run_fits ([ListerStep, ListerStep, ListerStep, ListerStep] @
             [WorkerRecv 0 example_results [] ''0.10'', WorkerAct 0, WorkerAct 0]) example_run_start \<and>
   LoadInt64 (processMessageCount (input example_queued)) = 0 \<and>
   LoadInt64 (processMessageCount (input example_counting)) = 1 \<and>
   LoadInt64 (load_counter ProcessMessageCount (input example_queued))
     \<le> LoadInt64 (load_counter ProcessMessageCount (input example_counting)) \<and>
   LoadInt64 (processFileFailures (input example_counting))
     \<le> LoadInt64 (processFileCount (input example_counting))"
proof -
  have f: "run_fits ([ListerStep, ListerStep, ListerStep, ListerStep] @
             [WorkerRecv 0 example_results [] ''0.10'', WorkerAct 0, WorkerAct 0]) example_run_start"
    by (simp only: example_lister_fits example_worker_fits)
  note t = counters_monotone_counted_once [OF example_Init example_Run example_queued_exec
      example_counting_exec f]
  have a: "LoadInt64 (processMessageCount (input example_queued)) = 0"
    by (simp add: example_queued_def example_input_eq newInput_def LoadInt64_def)
  have b: "LoadInt64 (processMessageCount (input example_counting)) = 1"
    by (simp add: example_counting_def LoadInt64_def)
  from t have m: "LoadInt64 (load_counter ProcessMessageCount (input example_queued))
     \<le> LoadInt64 (load_counter ProcessMessageCount (input example_counting))" by blast
  from t have c: "LoadInt64 (processFileFailures (input example_counting))
     \<le> LoadInt64 (processFileCount (input example_counting))" by blast
  from example_Init example_Run example_queued_exec example_counting_exec f a b m c
  show ?thesis by blast
qed

section \<open>Shutdown\<close>

lemma queued_perform [simp]: "queued (perform w a s) = queued s"
  by (simp add: queued_def)

lemma sum_rank_less:
  assumes "w < length ws" "worker_rank pc < worker_rank (ws ! w)"
  shows "sum_list (map worker_rank (ws[w := pc])) < sum_list (map worker_rank ws)"
  using sum_list_map_update [OF assms(1), of worker_rank pc] assms(2) by linarith

lemma rank_lister:
  assumes "lister_step s = Some s'"
  shows "fst (rank s') < fst (rank s) \<and> workers s' = workers s"
  using assms
  by (auto simp: lister_step_def rank_def queued_def chan_send_def close_chan_def
      split: lister_pc.splits list.splits if_splits prod.splits option.splits
        send_result.splits sum.splits)

lemma rank_step:
  assumes st: "step l s = Some s'"
  shows "(rank s', rank s) \<in> less_than <*lex*> less_than"
proof -
  have "fst (rank s') < fst (rank s) \<or> (fst (rank s') = fst (rank s) \<and> snd (rank s') < snd (rank s))"
  proof (cases l)
    case CallStop
    with st show ?thesis
      by (auto simp: Stop_def close_chan_def rank_def queued_def chan_is_closed_def
          split: sum.splits option.splits if_splits)
  next
    case ListerStep
    with st rank_lister [of s s'] show ?thesis by simp
  next
    case (WorkerRecv w rs left dur)
    with st have w: "w < length (workers s)" and sel: "workers s ! w = WSelect"
      by (auto split: if_splits)
    show ?thesis
    proof (cases "chan_recv (listChan (input s))")
      case (RecvVal k c)
      with st WorkerRecv w sel show ?thesis
        by (auto simp: rank_def queued_def chan_recv_def split: option.splits list.splits if_splits)
    next
      case RecvClosed
      with st WorkerRecv w sel have s': "s' = s\<lparr>workers := (workers s)[w := WDone]\<rparr>" by simp
      have "sum_list (map worker_rank ((workers s)[w := WDone])) < sum_list (map worker_rank (workers s))"
        by (rule sum_rank_less [OF w]) (simp add: sel)
      then show ?thesis by (simp add: s' rank_def queued_def)
    next
      case RecvBlocks
      with st WorkerRecv w sel show ?thesis by simp
    qed
  next
    case (WorkerStop w)
    with st have w: "w < length (workers s)" and sel: "workers s ! w = WSelect"
      and s': "s' = s\<lparr>workers := (workers s)[w := WDrain]\<rparr>"
      by (auto split: if_splits)
    have "sum_list (map worker_rank ((workers s)[w := WDrain])) < sum_list (map worker_rank (workers s))"
      by (rule sum_rank_less [OF w]) (simp add: sel)
    then show ?thesis by (simp add: s' rank_def queued_def)
  next
    case (WorkerAct w)
    with st have w: "w < length (workers s)" by (auto split: if_splits)
    from st WorkerAct w obtain acts where b: "workers s ! w = WBusy acts"
      by (auto split: worker_pc.splits)
    show ?thesis
    proof (cases acts)
      case Nil
      with st WorkerAct w b have s': "s' = s\<lparr>workers := (workers s)[w := WSelect]\<rparr>" by simp
      have "sum_list (map worker_rank ((workers s)[w := WSelect])) < sum_list (map worker_rank (workers s))"
        by (rule sum_rank_less [OF w]) (simp add: b)
      then show ?thesis by (simp add: s' rank_def queued_def)
    next
      case (Cons a acts')
      with st WorkerAct w b
      have s': "s' = (perform w a s)\<lparr>workers := (workers s)[w := WBusy acts']\<rparr>" by simp
      have "sum_list (map worker_rank ((workers s)[w := WBusy acts'])) < sum_list (map worker_rank (workers s))"
        by (rule sum_rank_less [OF w]) (simp add: b Cons)
      then show ?thesis by (simp add: s' rank_def queued_def)
    qed
  next
    case (WorkerDrain w)
    with st have w: "w < length (workers s)" and dr: "workers s ! w = WDrain"
      by (auto split: if_splits)
    show ?thesis
    proof (cases "chan_recv (listChan (input s))")
      case (RecvVal k c)
      with st WorkerDrain w dr show ?thesis
        by (auto simp: rank_def queued_def chan_recv_def split: option.splits list.splits if_splits)
    next
      case RecvClosed
      with st WorkerDrain w dr have s': "s' = s\<lparr>workers := (workers s)[w := WDone]\<rparr>" by simp
      have "sum_list (map worker_rank ((workers s)[w := WDone])) < sum_list (map worker_rank (workers s))"
        by (rule sum_rank_less [OF w]) (simp add: dr)
      then show ?thesis by (simp add: s' rank_def queued_def)
    next
      case RecvBlocks
      with st WorkerDrain w dr show ?thesis by simp
    qed
  qed
  then show ?thesis by (cases "rank s'"; cases "rank s") auto
qed

lemma wf_stepped: "wf stepped"
proof -
  have "stepped \<subseteq> inv_image (less_than <*lex*> less_than) rank"
    by (auto simp: stepped_def inv_image_def dest: rank_step)
  moreover have "wf (inv_image (less_than <*lex*> less_than) rank)"
    by (intro wf_inv_image wf_lex_prod wf_less_than)
  ultimately show ?thesis by (rule wf_subset [rotated])
qed

lemma step_keeps_length: "step l s = Some s' \<Longrightarrow> length (workers s') = length (workers s)"
  by (cases l)
     (auto simp: Stop_def lister_step_def
        split: sum.splits if_splits recv_result.splits worker_pc.splits list.splits
          lister_pc.splits prod.splits send_result.splits)

lemma exec_keeps_length: "exec ls s = Some s' \<Longrightarrow> length (workers s') = length (workers s)"
  by (induction ls arbitrary: s) (auto split: option.splits dest: step_keeps_length)

lemma step_keeps_stop_closed:
  "step l s = Some s' \<Longrightarrow> chan_is_closed (stop (input s)) \<Longrightarrow> chan_is_closed (stop (input s'))"
  by (cases l)
     (auto simp: Stop_def lister_step_def close_chan_def chan_is_closed_def
        split: sum.splits if_splits recv_result.splits worker_pc.splits list.splits
          lister_pc.splits prod.splits send_result.splits option.splits)

lemma step_keeps_drained:
  assumes "step l s = Some s'" "w < length (workers s)" "drained (workers s ! w)"
  shows "drained (workers s' ! w)"
proof (cases l)
  case CallStop
  with assms show ?thesis by (auto simp: Stop_def split: sum.splits)
next
  case ListerStep
  with assms show ?thesis
    by (auto simp: lister_step_def
        split: lister_pc.splits list.splits if_splits prod.splits send_result.splits sum.splits)
next
  case (WorkerRecv v rs left dur)
  with assms show ?thesis
    by (cases "v = w") (auto simp: drained_def split: if_splits recv_result.splits)
next
  case (WorkerStop v)
  with assms show ?thesis
    by (cases "v = w") (auto simp: drained_def split: if_splits)
next
  case (WorkerAct v)
  with assms show ?thesis
    by (cases "v = w") (auto simp: drained_def split: if_splits worker_pc.splits list.splits)
next
  case (WorkerDrain v)
  with assms show ?thesis
    by (cases "v = w") (auto simp: drained_def split: if_splits recv_result.splits)
qed

lemma exec_keeps_drained:
  "exec ls s = Some s' \<Longrightarrow> w < length (workers s) \<Longrightarrow> drained (workers s ! w) \<Longrightarrow>
     drained (workers s' ! w)"
proof (induction ls arbitrary: s)
  case Nil
  then show ?case by simp
next
  case (Cons l ls)
  from Cons.prems obtain t where t: "step l s = Some t" "exec ls t = Some s'"
    by (auto split: option.splits)
  from step_keeps_drained [OF t(1) Cons.prems(2,3)] step_keeps_length [OF t(1)] Cons.prems(2)
  show ?case by (intro Cons.IH [OF t(2)]) simp_all
qed

lemma set_update_WDrain:
  "WDrain \<in> set (ws[w := pc]) \<Longrightarrow> pc \<noteq> WDrain \<Longrightarrow> WDrain \<in> set ws"
  using set_update_subset_insert [of ws w pc] by auto

lemma seen_inv_step:
  assumes "seen_inv s" "step l s = Some s'"
  shows "seen_inv s'"
proof (cases "chan_is_closed (stop (input s))")
  case True
  with assms(2) show ?thesis by (simp add: seen_inv_def step_keeps_stop_closed)
next
  case False
  with assms(1) have n: "WDrain \<notin> set (workers s)" by (simp add: seen_inv_def)
  have "WDrain \<notin> set (workers s')"
  proof (cases l)
    case CallStop
    with assms(2) n show ?thesis by (auto simp: Stop_def split: sum.splits)
  next
    case ListerStep
    with assms(2) n show ?thesis
      by (auto simp: lister_step_def
          split: lister_pc.splits list.splits if_splits prod.splits send_result.splits sum.splits)
  next
    case (WorkerRecv v rs left dur)
    with assms(2) n show ?thesis
      by (auto dest: set_update_WDrain split: if_splits recv_result.splits)
  next
    case (WorkerStop v)
    with assms(2) False show ?thesis by (auto split: if_splits)
  next
    case (WorkerAct v)
    with assms(2) n show ?thesis
      by (auto dest: set_update_WDrain split: if_splits worker_pc.splits list.splits)
  next
    case (WorkerDrain v)
    with assms(2) n show ?thesis
      by (auto dest: set_update_WDrain split: if_splits recv_result.splits)
  qed
  then show ?thesis by (simp add: seen_inv_def)
qed

lemma seen_inv_exec: "seen_inv s \<Longrightarrow> exec ls s = Some s' \<Longrightarrow> seen_inv s'"
  by (induction ls arbitrary: s) (auto split: option.splits dest: seen_inv_step)

lemma seen_inv_start: "Run i listing = Some s0 \<Longrightarrow> seen_inv s0"
  using Run_start [of i listing s0] by (auto simp: seen_inv_def)

lemma sends_closed:
  "chan_is_closed (stop (input s)) \<Longrightarrow> sends ls s \<le> (if is_send (lister s) then 1 else 0)"
proof (induction ls arbitrary: s)
  case Nil
  then show ?case by simp
next
  case (Cons l ls)
  show ?case
  proof (cases "step l s")
    case None
    then show ?thesis by simp
  next
    case (Some t)
    have c: "chan_is_closed (stop (input t))" using Some Cons.prems by (rule step_keeps_stop_closed)
    note ih = Cons.IH [OF c]
    show ?thesis
    proof (cases "l = ListerStep")
      case True
      with Some have ls: "lister_step s = Some t" by simp
      with Cons.prems have "\<not> is_send (lister t)"
        by (auto simp: lister_step_def is_send_def
            split: lister_pc.splits list.splits if_splits prod.splits send_result.splits sum.splits)
      with ih have "sends ls t = 0" by simp
      with Some show ?thesis by simp
    next
      case False
      with Some have "lister t = lister s" by (simp add: step_keeps_lister)
      with ih Some False show ?thesis by simp
    qed
  qed
qed

lemma drained_only_WorkerDrain:
  assumes "w < length (workers s)" "drained (workers s ! w)"
  shows "step (WorkerRecv w rs left dur) s = None \<and> step (WorkerAct w) s = None \<and>
         step (WorkerStop w) s = None"
  using assms by (auto simp: drained_def)

lemma worker_can_step:
  assumes w: "w < length (workers s)" and nd: "workers s ! w \<noteq> WDone"
    and r: "chan_recv (listChan (input s)) \<noteq> RecvBlocks"
  shows "\<exists>l. l \<noteq> CallStop \<and> step l s \<noteq> None"
proof (cases "workers s ! w")
  case WSelect
  with w r have "step (WorkerRecv w [] [] []) s \<noteq> None"
    by (cases "chan_recv (listChan (input s))") simp_all
  then show ?thesis by blast
next
  case (WBusy acts)
  with w have "step (WorkerAct w) s \<noteq> None" by (cases acts) simp_all
  then show ?thesis by blast
next
  case WDrain
  with w r have "step (WorkerDrain w) s \<noteq> None"
    by (cases "chan_recv (listChan (input s))") simp_all
  then show ?thesis by blast
next
  case WDone
  with nd show ?thesis by simp
qed

lemma can_step:
  assumes inv: "run_inv s" and ws: "workers s \<noteq> []" and nr: "\<not> Run_returns s"
  shows "\<exists>l. l \<noteq> CallStop \<and> step l s \<noteq> None"
proof -
  from inv obtain ch where ch: "listChan (input s) = Some ch" "ch_cap ch = 1000"
      "ch_closed ch = (lister s = LDone)"
    and wd: "WDone \<in> set (workers s) \<longrightarrow> lister s = LDone"
    by (auto simp: run_inv_def split: option.splits)
  have lister_moves: "\<exists>l. l \<noteq> CallStop \<and> step l s \<noteq> None" if "lister_step s \<noteq> None"
  proof -
    from that have "ListerStep \<noteq> CallStop \<and> step ListerStep s \<noteq> None" by simp
    then show ?thesis by blast
  qed
  show ?thesis
  proof (cases "lister s")
    case (LStart es)
    then show ?thesis by (intro lister_moves) (simp add: lister_step_def)
  next
    case (LRange es)
    then show ?thesis by (intro lister_moves) (simp add: lister_step_def split: list.splits)
  next
    case (LSelect r es)
    then show ?thesis by (intro lister_moves) (simp add: lister_step_def split: prod.splits)
  next
    case (LSend k es)
    show ?thesis
    proof (cases "length (ch_buf ch) < 1000")
      case True
      with LSend ch show ?thesis
        by (intro lister_moves) (simp add: lister_step_def chan_send_def)
    next
      case False
      then have "ch_buf ch \<noteq> []" by auto
      with ch have r: "chan_recv (listChan (input s)) \<noteq> RecvBlocks"
        by (simp add: chan_recv_def split: list.splits)
      from ws have w: "0 < length (workers s)" by simp
      have "workers s ! 0 \<noteq> WDone"
      proof
        assume "workers s ! 0 = WDone"
        with w have "WDone \<in> set (workers s)" by (metis nth_mem)
        with wd LSend show False by simp
      qed
      with w show ?thesis using r by (rule worker_can_step)
    qed
  next
    case LClose
    with ch show ?thesis by (intro lister_moves) (simp add: lister_step_def close_chan_def)
  next
    case LDone
    with ch have r: "chan_recv (listChan (input s)) \<noteq> RecvBlocks"
      by (simp add: chan_recv_def split: list.splits)
    from nr LDone obtain w where "w < length (workers s)" "workers s ! w \<noteq> WDone"
      by (auto simp: Run_returns_def list_all_length)
    then show ?thesis using r by (rule worker_can_step)
  qed
qed

lemma example_observed_exec:
  "exec [CallStop, WorkerStop 0] example_queued = Some example_observed"
  by (simp add: example_queued_def example_run_start_def example_observed_def example_input_eq
      Stop_def close_chan_def make_chan_def chan_is_closed_def)

lemma example_observed_reached:
  "exec [ListerStep, ListerStep, ListerStep, ListerStep, CallStop, WorkerStop 0] example_run_start
     = Some example_observed"
  using exec_append [OF example_queued_exec, of "[CallStop, WorkerStop 0]"] example_observed_exec
  by simp

lemma example_observed_fetchKey:
  "fetchKey (input example_observed) example_results [] ''0.10'' ''a/k'' = example_turn"
proof -
  have "bucket (input example_observed) = bucket example_input"
    by (simp add: example_observed_def example_queued_def)
  then show ?thesis
    using example_fetchKey by (simp add: fetchKey_def readS3File_def)
qed

lemma example_raced_exec:
  "exec [WorkerRecv 1 example_results [] ''0.10'', WorkerAct 1, WorkerAct 1] example_observed
     = Some example_raced"
proof -
  have r: "step (WorkerRecv 1 example_results [] ''0.10'') example_observed
     = Some (example_observed
               \<lparr>input := (input example_observed)\<lparr>listChan := Some \<lparr>ch_closed = False, ch_buf = [], ch_cap = 1000\<rparr>\<rparr>,
                workers := [WDrain, WBusy example_turn]\<rparr>)"
    using example_observed_fetchKey
    by (simp add: chan_recv_def)
       (simp add: example_observed_def example_queued_def example_run_start_def)
  have e1: "exec [WorkerRecv 1 example_results [] ''0.10'', WorkerAct 1, WorkerAct 1] example_observed
      = exec [WorkerAct 1, WorkerAct 1]
          (example_observed
               \<lparr>input := (input example_observed)\<lparr>listChan := Some \<lparr>ch_closed = False, ch_buf = [], ch_cap = 1000\<rparr>\<rparr>,
                workers := [WDrain, WBusy example_turn]\<rparr>)"
    by (simp only: exec.simps r option.case)
  show ?thesis unfolding e1
    by (simp add: example_observed_def example_queued_def example_run_start_def example_turn_def
          example_raced_def example_input_eq newInput_def)
qed

lemma returns_reachable:
  fixes s :: "('schema, 'auth, 'region) run_state"
  assumes "run_inv s" "workers s \<noteq> []"
  shows "\<exists>ls s'. exec ls s = Some s' \<and> Run_returns s'"
  using wf_stepped assms
proof (induction s rule: wf_induct_rule)
  case (less s)
  show ?case
  proof (cases "Run_returns s")
    case True
    then have "exec [] s = Some s \<and> Run_returns s" by simp
    then show ?thesis by blast
  next
    case False
    from can_step [OF less.prems False] obtain l t where t: "step l s = Some t" by auto
    then have "(t, s) \<in> stepped" by (auto simp: stepped_def)
    moreover have "run_inv t" using less.prems(1) t by (rule run_inv_step)
    moreover have "workers t \<noteq> []" using step_keeps_length [OF t] less.prems(2) by auto
    ultimately obtain ls s' where "exec ls t = Some s'" "Run_returns s'"
      using less.IH by blast
    with t have "exec (l # ls) s = Some s' \<and> Run_returns s'" by simp
    then show ?thesis by blast
  qed
qed

text \<open>
  Claim C2, as the code has it. The claim reads: once a worker has observed the shutdown
  signal, every key still on the queue is drained without the fetcher being invoked and
  without any counter being updated. Each worker has its own \<open>select\<close> over \<open>listChan\<close> and
  \<open>stop\<close>, and a \<open>select\<close> with both cases ready may take either: in the run below worker 0
  has seen \<open>stop\<close> and drains while the key \<open>a/k\<close> is still on the queue, and worker 1, at
  its \<open>select\<close>, receives that key, reads the object and counts its first record.
\<close>

theorem queued_key_fetched_after_stop_counterexample:
  "Init example_env example_conf (newInput ()) = (example_input, None) \<and>
   Run example_input [\<lparr>Key = ''a/k'', ListErr = None\<rparr>] = Some example_run_start \<and>
   exec [ListerStep, ListerStep, ListerStep, ListerStep, CallStop, WorkerStop 0] example_run_start
     = Some example_observed \<and>
   workers example_observed ! 0 = WDrain \<and>
   queued example_observed = [''a/k''] \<and>
   exec [WorkerRecv 1 example_results [] ''0.10'', WorkerAct 1, WorkerAct 1] example_observed
     = Some example_raced \<and>
   queued example_raced = [] \<and>
   workers example_raced ! 1 = WBusy (drop 2 (fetchKey (input example_observed) example_results [] ''0.10'' ''a/k'')) \<and>
   processMessageCount (input example_observed) = 0 \<and>
   processMessageCount (input example_raced) = 1"
proof -
  have a: "workers example_observed ! 0 = WDrain" "queued example_observed = [''a/k'']"
    "processMessageCount (input example_observed) = 0"
    by (simp_all add: example_observed_def example_queued_def queued_def example_input_eq newInput_def)
  have b: "queued example_raced = []" "workers example_raced ! 1 = WBusy (drop 2 example_turn)"
    "processMessageCount (input example_raced) = 1"
    by (simp_all add: example_raced_def queued_def)
  from example_Init example_Run example_observed_reached example_raced_exec a b
  show ?thesis by (simp only: example_observed_fetchKey simp_thms)
qed

text \<open>
  Claim C2, amended. In a run of an initialised plugin, once a worker has seen \<open>stop\<close>
  (it stands in its draining loop): \<open>stop\<close> is closed; a key this worker takes off the
  queue is discarded, the step changing nothing but the queue (no counter, no message,
  no record delivered); from then on this worker only drains or is done, and can
  neither receive a key to fetch nor perform an action; the lister sends at most one
  more key; and every state the run reaches is one in which \<open>Run\<close> returns or some
  goroutine can move, and one from which the run can go on to \<open>Run\<close> returning. No run
  goes on for ever (the listing and the objects being finite), so every run that is
  not cut short ends with \<open>Run\<close> returning: neither a worker nor the lister stays
  blocked. Another worker that still stands at its \<open>select\<close> may receive a key and
  fetch it.
\<close>

theorem drain_after_stop_and_termination:
  fixes s :: "('schema, 'auth, 'region) run_state"
  assumes init: "Init env conf i0 = (i, None)" and run: "Run i listing = Some s0"
    and ex: "exec ls s0 = Some s"
    and w: "w < length (workers s)" and obs: "workers s ! w = WDrain"
  shows "chan_is_closed (stop (input s)) \<and>
         (\<forall>s3Key c. chan_recv (listChan (input s)) = RecvVal s3Key c \<longrightarrow>
            step (WorkerDrain w) s = Some (s\<lparr>input := (input s)\<lparr>listChan := c\<rparr>\<rparr>)) \<and>
         (\<forall>ls' s'. exec ls' s = Some s' \<longrightarrow>
            drained (workers s' ! w) \<and>
            (\<forall>rs leftovers duration. step (WorkerRecv w rs leftovers duration) s' = None) \<and>
            step (WorkerAct w) s' = None \<and>
            sends ls' s \<le> 1 \<and>
            (Run_returns s' \<or> (\<exists>l. l \<noteq> CallStop \<and> step l s' \<noteq> None)) \<and>
            (\<exists>ls'' s''. exec ls'' s' = Some s'' \<and> Run_returns s'')) \<and>
         wf {(s', t :: ('schema, 'auth, 'region) run_state). \<exists>l. step l t = Some s'}"
proof -
  have inv: "run_inv s" using run_inv_exec [OF run_inv_start [OF init run] ex] .
  have "seen_inv s" using seen_inv_exec [OF seen_inv_start [OF run] ex] .
  moreover have "WDrain \<in> set (workers s)" using w obs by (metis nth_mem)
  ultimately have closed: "chan_is_closed (stop (input s))" by (simp add: seen_inv_def)
  have dr: "drained (workers s ! w)" using obs by (simp add: drained_def)
  have discard: "\<forall>s3Key c. chan_recv (listChan (input s)) = RecvVal s3Key c \<longrightarrow>
            step (WorkerDrain w) s = Some (s\<lparr>input := (input s)\<lparr>listChan := c\<rparr>\<rparr>)"
    using w obs by simp
  have later: "drained (workers s' ! w) \<and>
            (\<forall>rs leftovers duration. step (WorkerRecv w rs leftovers duration) s' = None) \<and>
            step (WorkerAct w) s' = None \<and>
            sends ls' s \<le> 1 \<and>
            (Run_returns s' \<or> (\<exists>l. l \<noteq> CallStop \<and> step l s' \<noteq> None)) \<and>
            (\<exists>ls'' s''. exec ls'' s' = Some s'' \<and> Run_returns s'')"
    if e: "exec ls' s = Some s'" for ls' s'
  proof -
    have len: "length (workers s') = length (workers s)" using e by (rule exec_keeps_length)
    have d: "drained (workers s' ! w)" using e w dr by (rule exec_keeps_drained)
    from len w have w': "w < length (workers s')" by simp
    note only = drained_only_WorkerDrain [OF w' d]
    have "sends ls' s \<le> (if is_send (lister s) then 1 else 0)" using closed by (rule sends_closed)
    then have one: "sends ls' s \<le> 1" by (simp split: if_splits)
    have inv': "run_inv s'" using inv e by (rule run_inv_exec)
    from w' have ne: "workers s' \<noteq> []" by auto
    have mv: "Run_returns s' \<or> (\<exists>l. l \<noteq> CallStop \<and> step l s' \<noteq> None)"
      using can_step [OF inv' ne] by blast
    note rr = returns_reachable [OF inv' ne]
    from d only one mv rr show ?thesis by blast
  qed
  have "wf {(s', t :: ('schema, 'auth, 'region) run_state). \<exists>l. step l t = Some s'}"
    using wf_stepped unfolding stepped_def .
  with closed discard later show ?thesis by blast
qed

theorem drain_after_stop_and_termination_witness:
  "Init example_env example_conf (newInput ()) = (example_input, None) \<and>
   Run example_input [\<lparr>Key = ''a/k'', ListErr = None\<rparr>] = Some example_run_start \<and>
   exec [ListerStep, ListerStep, ListerStep, ListerStep, CallStop, WorkerStop 0] example_run_start
     = Some example_observed \<and>
   (0::nat) < length (workers example_observed) \<and>
   workers example_observed ! 0 = WDrain \<and>
   chan_is_closed (stop (input example_observed)) \<and>
   step (WorkerDrain 0) example_observed
     = Some (example_observed
              \<lparr>input := (input example_observed)
                 \<lparr>listChan := Some \<lparr>ch_closed = False, ch_buf = [], ch_cap = 1000\<rparr>\<rparr>\<rparr>) \<and>
   sends [WorkerDrain 0, ListerStep, ListerStep] example_observed \<le> 1"
proof -
  have w: "(0::nat) < length (workers example_observed)" "workers example_observed ! 0 = WDrain"
    by (simp_all add: example_observed_def)
  note t = drain_after_stop_and_termination [OF example_Init example_Run example_observed_reached w]
  have r: "chan_recv (listChan (input example_observed))
      = RecvVal ''a/k'' (Some \<lparr>ch_closed = False, ch_buf = [], ch_cap = 1000\<rparr>)"
    by (simp add: example_observed_def example_queued_def chan_recv_def)
  from t have c: "chan_is_closed (stop (input example_observed))" by (rule conjunct1)
  from t [THEN conjunct2, THEN conjunct1] r
  have d: "step (WorkerDrain 0) example_observed
     = Some (example_observed
              \<lparr>input := (input example_observed)
                 \<lparr>listChan := Some \<lparr>ch_closed = False, ch_buf = [], ch_cap = 1000\<rparr>\<rparr>\<rparr>)"
    by blast
  have e: "exec [WorkerDrain 0, ListerStep, ListerStep] example_observed \<noteq> None"
    by (simp add: example_observed_def example_queued_def example_run_start_def chan_recv_def
        lister_step_def close_chan_def)
  then obtain s' where "exec [WorkerDrain 0, ListerStep, ListerStep] example_observed = Some s'"
    by auto
  with t [THEN conjunct2, THEN conjunct2, THEN conjunct1]
  have s: "sends [WorkerDrain 0, ListerStep, ListerStep] example_observed \<le> 1" by blast
  from example_Init example_Run example_observed_reached w c d s show ?thesis by blast
qed

section \<open>Listing under the name filter\<close>

lemma filter_allows_iff:
  "filter_allows i k = (objectMatch i = None \<or> (\<exists>re. objectMatch i = Some re \<and> re (basename k)))"
  by (auto simp: filter_allows_def split: option.splits)

lemma listEntry_listed:
  "ListErr r = None \<Longrightarrow>
     listEntry i r =
       (if filter_allows i (Key r) then ([LogMessage (''Found: '' @ Key r)], Some (Key r))
        else ([LogMessage (''Skipping: '' @ Key r)], None))"
  by (simp add: listEntry_def filter_allows_def)

lemma lister_takes_entry:
  "lister s = LRange (r # es) \<Longrightarrow> step ListerStep s = Some (s\<lparr>lister := LSelect r es\<rparr>)"
  by (simp add: lister_step_def)

lemma lister_decides_entry:
  assumes "lister s = LRange (r # es)" "ListErr r = None" "\<not> chan_is_closed (stop (input s))"
  shows "exec [ListerStep, ListerStep] s =
     Some (if filter_allows (input s) (Key r)
           then s\<lparr>lister := LSend (Key r) es, logged := logged s @ [LogMessage (''Found: '' @ Key r)]\<rparr>
           else s\<lparr>lister := LRange es, logged := logged s @ [LogMessage (''Skipping: '' @ Key r)]\<rparr>)"
  using assms by (simp add: lister_step_def listEntry_listed)

lemma lister_drops_entry:
  assumes "lister s = LRange (r # es)" "chan_is_closed (stop (input s))"
  shows "exec [ListerStep, ListerStep] s =
     Some (s\<lparr>lister := LClose, logged := logged s @ [LogMessage ''Stopping S3 list'']\<rparr>)"
  using assms by (simp add: lister_step_def)

lemma lister_step_counters:
  "lister_step s = Some s' \<Longrightarrow>
     load_counter c (input s') = load_counter c (input s) \<and> delivered s' = delivered s \<and>
     workers s' = workers s"
  by (auto simp: lister_step_def
      split: lister_pc.splits list.splits if_splits prod.splits send_result.splits sum.splits)

lemma lister_step_not_send:
  "lister_step s = Some s' \<Longrightarrow> \<not> is_send (lister s) \<Longrightarrow> queued s' = queued s"
  by (auto simp: lister_step_def is_send_def queued_def close_chan_def
      split: lister_pc.splits list.splits if_splits prod.splits sum.splits option.splits)

lemma lister_idle_moves:
  "lister s = LRange es \<Longrightarrow> \<exists>s'. lister_step s = Some s'"
  by (simp add: lister_step_def split: list.splits)

lemma lister_sends_entry:
  fixes s :: "('schema, 'auth, 'region) run_state"
  assumes inv: "run_inv s" and head: "lister s = LRange (r # es)" and ok: "ListErr r = None"
    and op: "\<not> chan_is_closed (stop (input s))" and room: "length (queued s) < 1000"
  shows "\<exists>s3. exec [ListerStep, ListerStep, ListerStep] s = Some s3 \<and>
           (queued s3 = queued s @ [Key r]) = filter_allows (input s) (Key r) \<and>
           (\<not> filter_allows (input s) (Key r) \<longrightarrow> queued s3 = queued s) \<and>
           (\<forall>c. load_counter c (input s3) = load_counter c (input s)) \<and>
           delivered s3 = delivered s \<and> workers s3 = workers s"
proof -
  from inv head obtain ch where ch: "listChan (input s) = Some ch" "ch_cap ch = 1000"
      "\<not> ch_closed ch"
    by (auto simp: run_inv_def split: option.splits)
  from room ch have len: "length (ch_buf ch) < 1000" by (simp add: queued_def)
  note two = lister_decides_entry [OF head ok op]
  show ?thesis
  proof (cases "filter_allows (input s) (Key r)")
    case True
    let ?s2 = "s\<lparr>lister := LSend (Key r) es, logged := logged s @ [LogMessage (''Found: '' @ Key r)]\<rparr>"
    let ?s3 = "?s2\<lparr>input := (input s)\<lparr>listChan := Some (ch\<lparr>ch_buf := ch_buf ch @ [Key r]\<rparr>)\<rparr>,
                   lister := LRange es\<rparr>"
    from two True have e2: "exec [ListerStep, ListerStep] s = Some ?s2" by simp
    have "step ListerStep ?s2 = Some ?s3"
      using ch len by (simp add: lister_step_def chan_send_def)
    then have "exec [ListerStep] ?s2 = Some ?s3" by simp
    with exec_append [OF e2, of "[ListerStep]"]
    have e3: "exec [ListerStep, ListerStep, ListerStep] s = Some ?s3"
      by (simp only: append.simps)
    have "queued ?s3 = queued s @ [Key r]" using ch by (simp add: queued_def)
    moreover have "\<forall>c. load_counter c (input ?s3) = load_counter c (input s)" by simp
    ultimately show ?thesis using e3 True by auto
  next
    case False
    let ?s2 = "s\<lparr>lister := LRange es, logged := logged s @ [LogMessage (''Skipping: '' @ Key r)]\<rparr>"
    from two False have e2: "exec [ListerStep, ListerStep] s = Some ?s2" by simp
    have "lister ?s2 = LRange es" by simp
    from lister_idle_moves [OF this] obtain s3 where s3: "lister_step ?s2 = Some s3" by blast
    then have "exec [ListerStep] ?s2 = Some s3" by simp
    with exec_append [OF e2, of "[ListerStep]"]
    have e3: "exec [ListerStep, ListerStep, ListerStep] s = Some s3"
      by (simp only: append.simps)
    have q: "queued s3 = queued s"
      using lister_step_not_send [OF s3] by (simp add: is_send_def queued_def)
    from lister_step_counters [OF s3]
    have c: "\<forall>c. load_counter c (input s3) = load_counter c (input s)"
      "delivered s3 = delivered s" "workers s3 = workers s" by simp_all
    from e3 q c False show ?thesis by auto
  qed
qed

lemma example_filtering_eq:
  "example_filtering = (newInput ())\<lparr>config := Some example_filter_conf,
      objectMatch := Some (\<lambda>s. s = ''a.gz''),
      bucket := Some \<lparr>BucketS3 = \<lparr>S3Auth = (), S3Region = (), ConnectTimeout = 60000000000, ReadTimeout = 60000000000\<rparr>, BucketName = ''telemetry''\<rparr>,
      stop := make_chan 0, listChan := make_chan 1000\<rparr>"
  by (simp add: example_filtering_def Init_def example_env_def example_filter_conf_def
      example_conf_def ConfigStruct_def initBucket_def initObjectMatch_def newInput_def seconds_def)

lemma example_filtering_Init:
  "Init example_env example_filter_conf (newInput ()) = (example_filtering, None)"
  by (simp add: example_filtering_def Init_def example_env_def example_filter_conf_def
      example_conf_def ConfigStruct_def initBucket_def initObjectMatch_def)

lemma example_filtering_Run:
  "Run example_filtering example_listing = Some example_filter_start"
proof -
  have "replicate (2 :: nat) WSelect = [WSelect, WSelect]" by (simp add: numeral_2_eq_2)
  then show ?thesis
    by (simp add: Run_def example_filtering_eq example_filter_conf_def example_conf_def
        ConfigStruct_def example_filter_start_def)
qed

lemma example_filter_head_exec:
  "exec [ListerStep] example_filter_start = Some example_filter_head"
  by (simp add: example_filter_start_def example_filter_head_def lister_step_def)

lemma example_filter_allows:
  "filter_allows example_filtering ''x/y/a.gz''" "\<not> filter_allows example_filtering ''b.txt''"
  by (simp_all add: filter_allows_def example_filtering_eq example_basename example_basename2)

lemma example_filter_sent_exec:
  "exec [ListerStep, ListerStep, ListerStep] example_filter_head = Some example_filter_sent"
proof -
  have l: "listEntry example_filtering \<lparr>Key = ''x/y/a.gz'', ListErr = None\<rparr>
      = ([LogMessage ''Found: x/y/a.gz''], Some ''x/y/a.gz'')"
    using example_filter_allows(1) by (simp add: listEntry_listed)
  have c: "\<not> chan_is_closed (stop example_filtering)"
     "listChan example_filtering = Some \<lparr>ch_closed = False, ch_buf = [], ch_cap = 1000\<rparr>"
    by (simp_all add: example_filtering_eq chan_is_closed_def make_chan_def)
  show ?thesis
    by (simp add: example_filter_head_def example_filter_start_def example_filter_sent_def
        example_listing_def lister_step_def l c chan_send_def)
qed

lemma example_filter_sent_reached:
  "exec [ListerStep, ListerStep, ListerStep, ListerStep] example_filter_start
     = Some example_filter_sent"
  using exec_append [OF example_filter_head_exec, of "[ListerStep, ListerStep, ListerStep]"]
    example_filter_sent_exec
  by (simp only: append.simps)

lemma example_filter_stopped_reached:
  "exec [ListerStep, CallStop] example_filter_start = Some example_filter_stopped"
  by (simp add: example_filter_start_def example_filter_head_def example_filter_stopped_def
      lister_step_def example_filtering_eq Stop_def close_chan_def make_chan_def newInput_def)

lemma example_dropped_exec:
  "exec [ListerStep, ListerStep, CallStop, ListerStep, ListerStep] example_run_start
     = Some example_dropped"
  by (simp add: example_run_start_def example_dropped_def lister_step_def example_input_eq
      Stop_def close_chan_def make_chan_def chan_is_closed_def newInput_def)

text \<open>
  Claim C5, as the code has it. The claim reads: for every entry listed without an
  error, the lister enqueues its key if and only if no filter is configured or the
  filter matches. The listing loop looks at \<open>stop\<close> before it looks at the entry, and
  leaves the loop when \<open>stop\<close> is closed: in the run below no filter is configured, the
  lister has taken the entry \<open>a/k\<close> from the listing, \<open>Stop\<close> is called, and the lister ends
  without ever sending the key.
\<close>

theorem listed_entry_dropped_after_stop_counterexample:
  "Init example_env example_conf (newInput ()) = (example_input, None) \<and>
   Run example_input [\<lparr>Key = ''a/k'', ListErr = None\<rparr>] = Some example_run_start \<and>
   ListErr \<lparr>Key = ''a/k'', ListErr = None\<rparr> = None \<and>
   objectMatch example_input = None \<and>
   exec [ListerStep, ListerStep] example_run_start
     = Some (example_run_start\<lparr>lister := LSelect \<lparr>Key = ''a/k'', ListErr = None\<rparr> [],
                               logged := [LogMessage ''Starting S3 list'']\<rparr>) \<and>
   exec [ListerStep, ListerStep, CallStop, ListerStep, ListerStep] example_run_start
     = Some example_dropped \<and>
   sends [ListerStep, ListerStep, CallStop, ListerStep, ListerStep] example_run_start = 0 \<and>
   lister example_dropped = LDone \<and>
   queued example_dropped = []"
proof -
  have a: "objectMatch example_input = None" by (simp add: example_input_eq newInput_def)
  have b: "exec [ListerStep, ListerStep] example_run_start
     = Some (example_run_start\<lparr>lister := LSelect \<lparr>Key = ''a/k'', ListErr = None\<rparr> [],
                               logged := [LogMessage ''Starting S3 list'']\<rparr>)"
    by (simp add: example_run_start_def lister_step_def)
  have c: "sends [ListerStep, ListerStep, CallStop, ListerStep, ListerStep] example_run_start = 0"
    by (simp add: example_run_start_def lister_step_def example_input_eq is_send_def
      Stop_def close_chan_def make_chan_def chan_is_closed_def newInput_def)
  have d: "lister example_dropped = LDone" "queued example_dropped = []"
    by (simp_all add: example_dropped_def queued_def)
  from example_Init example_Run a b example_dropped_exec c d show ?thesis by simp
qed

text \<open>
  Claim C5, amended. In a run of an initialised plugin, take the lister at the head of
  its loop with an entry listed without an error next in the listing. If \<open>stop\<close> is not
  closed, its next two steps take this entry and decide: it stands at the send of the
  entry's key, with \<open>Found: key\<close> logged, if and only if no filter is configured or the
  filter matches the key's base name, which is what follows the last \<open>/\<close> of the key (the
  whole key when it has none); otherwise it is back at the head of the loop with
  \<open>Skipping: key\<close> logged; either way nothing of the plugin has changed. When the queue
  has room, after a third step the queue is the old one with the key appended if and
  only if the filter allows the key (and is unchanged otherwise), and no counter has
  changed. If \<open>stop\<close> is closed, the two steps take the entry and drop it: the lister
  logs \<open>Stopping S3 list\<close> and goes to close the queue, which is unchanged.
\<close>

theorem lister_enqueues_iff_filter_allows:
  fixes s :: "('schema, 'auth, 'region) run_state"
  assumes init: "Init env conf i0 = (i, None)" and run: "Run i listing = Some s0"
    and ex: "exec ls s0 = Some s"
    and head: "lister s = LRange (r # es)" and ok: "ListErr r = None"
  shows "(\<not> chan_is_closed (stop (input s)) \<longrightarrow>
            (\<exists>s2. exec [ListerStep, ListerStep] s = Some s2 \<and>
                  input s2 = input s \<and> workers s2 = workers s \<and> delivered s2 = delivered s \<and>
                  (if filter_allows (input s) (Key r)
                   then lister s2 = LSend (Key r) es \<and>
                        logged s2 = logged s @ [LogMessage (''Found: '' @ Key r)]
                   else lister s2 = LRange es \<and>
                        logged s2 = logged s @ [LogMessage (''Skipping: '' @ Key r)])) \<and>
            (length (queued s) < 1000 \<longrightarrow>
               (\<exists>s3. exec [ListerStep, ListerStep, ListerStep] s = Some s3 \<and>
                     (queued s3 = queued s @ [Key r]) = filter_allows (input s) (Key r) \<and>
                     (\<not> filter_allows (input s) (Key r) \<longrightarrow> queued s3 = queued s) \<and>
                     (\<forall>c. load_counter c (input s3) = load_counter c (input s)) \<and>
                     delivered s3 = delivered s \<and> workers s3 = workers s))) \<and>
         (chan_is_closed (stop (input s)) \<longrightarrow>
            (\<exists>s2. exec [ListerStep, ListerStep] s = Some s2 \<and> lister s2 = LClose \<and>
                  input s2 = input s \<and> queued s2 = queued s \<and>
                  logged s2 = logged s @ [LogMessage ''Stopping S3 list''])) \<and>
         filter_allows (input s) (Key r)
           = (objectMatch (input s) = None \<or>
              (\<exists>re. objectMatch (input s) = Some re \<and> re (basename (Key r)))) \<and>
         CHR ''/'' \<notin> set (basename (Key r)) \<and>
         (\<exists>pre. Key r = pre @ basename (Key r) \<and> (pre = [] \<or> last pre = CHR ''/''))"
proof -
  have inv: "run_inv s" using run_inv_exec [OF run_inv_start [OF init run] ex] .
  have a: "\<exists>s2. exec [ListerStep, ListerStep] s = Some s2 \<and>
                  input s2 = input s \<and> workers s2 = workers s \<and> delivered s2 = delivered s \<and>
                  (if filter_allows (input s) (Key r)
                   then lister s2 = LSend (Key r) es \<and>
                        logged s2 = logged s @ [LogMessage (''Found: '' @ Key r)]
                   else lister s2 = LRange es \<and>
                        logged s2 = logged s @ [LogMessage (''Skipping: '' @ Key r)])"
    if op: "\<not> chan_is_closed (stop (input s))"
    using lister_decides_entry [OF head ok op] by (cases "filter_allows (input s) (Key r)") simp_all
  have b: "\<exists>s3. exec [ListerStep, ListerStep, ListerStep] s = Some s3 \<and>
                     (queued s3 = queued s @ [Key r]) = filter_allows (input s) (Key r) \<and>
                     (\<not> filter_allows (input s) (Key r) \<longrightarrow> queued s3 = queued s) \<and>
                     (\<forall>c. load_counter c (input s3) = load_counter c (input s)) \<and>
                     delivered s3 = delivered s \<and> workers s3 = workers s"
    if op: "\<not> chan_is_closed (stop (input s))" and room: "length (queued s) < 1000"
    using inv head ok op room by (rule lister_sends_entry)
  have c: "\<exists>s2. exec [ListerStep, ListerStep] s = Some s2 \<and> lister s2 = LClose \<and>
                  input s2 = input s \<and> queued s2 = queued s \<and>
                  logged s2 = logged s @ [LogMessage ''Stopping S3 list'']"
    if cl: "chan_is_closed (stop (input s))"
    using lister_drops_entry [OF head cl] by (simp add: queued_def)
  note d = filter_allows_iff [of "input s" "Key r"]
  note e = basename_segment [of "Key r"]
  from a b c d e show ?thesis by blast
qed

theorem lister_enqueues_iff_filter_allows_witness:
  "Init example_env example_filter_conf (newInput ()) = (example_filtering, None) \<and>
   Run example_filtering example_listing = Some example_filter_start \<and>
   exec [ListerStep] example_filter_start = Some example_filter_head \<and>
   lister example_filter_head
     = LRange [\<lparr>Key = ''x/y/a.gz'', ListErr = None\<rparr>, \<lparr>Key = ''b.txt'', ListErr = None\<rparr>] \<and>
   \<not> chan_is_closed (stop (input example_filter_head)) \<and>
   length (queued example_filter_head) < 1000 \<and>
   filter_allows (input example_filter_head) ''x/y/a.gz'' \<and>
   exec [ListerStep, ListerStep, ListerStep] example_filter_head = Some example_filter_sent \<and>
   queued example_filter_sent = queued example_filter_head @ [''x/y/a.gz''] \<and>
   lister example_filter_sent = LRange [\<lparr>Key = ''b.txt'', ListErr = None\<rparr>] \<and>
   \<not> filter_allows (input example_filter_sent) ''b.txt'' \<and>
   (\<exists>s3. exec [ListerStep, ListerStep, ListerStep] example_filter_sent = Some s3 \<and>
         queued s3 = queued example_filter_sent \<and>
         (\<forall>c. load_counter c (input s3) = load_counter c (input example_filter_sent))) \<and>
   exec [ListerStep, CallStop] example_filter_start = Some example_filter_stopped \<and>
   lister example_filter_stopped
     = LRange [\<lparr>Key = ''x/y/a.gz'', ListErr = None\<rparr>, \<lparr>Key = ''b.txt'', ListErr = None\<rparr>] \<and>
   chan_is_closed (stop (input example_filter_stopped)) \<and>
   filter_allows (input example_filter_stopped) ''x/y/a.gz'' \<and>
   (\<exists>s2. exec [ListerStep, ListerStep] example_filter_stopped = Some s2 \<and>
         lister s2 = LClose \<and> queued s2 = [])"
proof -
  have h: "lister example_filter_head
     = LRange (\<lparr>Key = ''x/y/a.gz'', ListErr = None\<rparr> # [\<lparr>Key = ''b.txt'', ListErr = None\<rparr>])"
    by (simp add: example_filter_head_def example_listing_def)
  have o: "\<not> chan_is_closed (stop (input example_filter_head))"
    "length (queued example_filter_head) < 1000"
    by (simp_all add: example_filter_head_def example_filter_start_def example_filtering_eq
        chan_is_closed_def make_chan_def queued_def)
  have f: "filter_allows (input example_filter_head) ''x/y/a.gz''"
    using example_filter_allows(1) by (simp add: example_filter_head_def example_filter_start_def)
  note t = lister_enqueues_iff_filter_allows [OF example_filtering_Init example_filtering_Run
      example_filter_head_exec h, simplified]
  from t [THEN conjunct1] o obtain s3 where
    s3: "exec [ListerStep, ListerStep, ListerStep] example_filter_head = Some s3"
      "(queued s3 = queued example_filter_head @ [''x/y/a.gz''])
         = filter_allows (input example_filter_head) ''x/y/a.gz''"
    by auto
  with example_filter_sent_exec f
  have q: "queued example_filter_sent = queued example_filter_head @ [''x/y/a.gz'']" by simp
  have h2: "lister example_filter_sent = LRange (\<lparr>Key = ''b.txt'', ListErr = None\<rparr> # [])"
    by (simp add: example_filter_sent_def)
  have o2: "\<not> chan_is_closed (stop (input example_filter_sent))"
    "length (queued example_filter_sent) < 1000"
    by (simp_all add: example_filter_sent_def example_filter_start_def example_filtering_eq
        chan_is_closed_def make_chan_def queued_def)
  have f2: "\<not> filter_allows (input example_filter_sent) ''b.txt''"
    using example_filter_allows(2)
    by (simp add: example_filter_sent_def example_filter_start_def filter_allows_def)
  note u = lister_enqueues_iff_filter_allows [OF example_filtering_Init example_filtering_Run
      example_filter_sent_reached h2, simplified]
  from u [THEN conjunct1] o2 f2 obtain s6 where
    "exec [ListerStep, ListerStep, ListerStep] example_filter_sent = Some s6"
    "queued s6 = queued example_filter_sent"
    "\<forall>c. load_counter c (input s6) = load_counter c (input example_filter_sent)"
    by auto
  then have last: "\<exists>s3. exec [ListerStep, ListerStep, ListerStep] example_filter_sent = Some s3 \<and>
         queued s3 = queued example_filter_sent \<and>
         (\<forall>c. load_counter c (input s3) = load_counter c (input example_filter_sent))"
    by blast
  have h3: "lister example_filter_stopped
     = LRange (\<lparr>Key = ''x/y/a.gz'', ListErr = None\<rparr> # [\<lparr>Key = ''b.txt'', ListErr = None\<rparr>])"
    by (simp add: example_filter_stopped_def example_filter_head_def example_listing_def)
  have o3: "chan_is_closed (stop (input example_filter_stopped))"
    "queued example_filter_stopped = []"
    by (simp_all add: example_filter_stopped_def example_filter_head_def
        example_filter_start_def example_filtering_eq chan_is_closed_def make_chan_def queued_def)
  have f3: "filter_allows (input example_filter_stopped) ''x/y/a.gz''"
    using example_filter_allows(1)
    by (simp add: example_filter_stopped_def example_filter_head_def example_filter_start_def
        filter_allows_def)
  note v = lister_enqueues_iff_filter_allows [OF example_filtering_Init example_filtering_Run
      example_filter_stopped_reached h3, simplified]
  from v [THEN conjunct2, THEN conjunct1] o3 obtain s2 where
    "exec [ListerStep, ListerStep] example_filter_stopped = Some s2" "lister s2 = LClose"
    "queued s2 = []"
    by auto
  then have stopped: "\<exists>s2. exec [ListerStep, ListerStep] example_filter_stopped = Some s2 \<and>
         lister s2 = LClose \<and> queued s2 = []"
    by blast
  from example_filtering_Init example_filtering_Run example_filter_head_exec h o f
    example_filter_sent_exec q h2 f2 last example_filter_stopped_reached h3 o3(1) f3 stopped
  show ?thesis by simp
qed

end
